theory Spec2Isabelle
  imports Main "HOL-Library.Char_ord" "HOL-Library.List_Lexorder" "HOL-Library.Multiset"
begin

section \<open>Values\<close>

text \<open>
  The package \<open>types\<close> (the \<open>Value\<close> interface and its implementations) is not among
  the source files; the variants are the ones the data model lists.  A float is kept as
  its lexeme: no claim below computes with it.
\<close>

datatype Value =
    StringValue string
  | IntValue int
  | FloatValue string
  | BoolValue bool
  | RegexValue string
  | ListValue "Value list"
  | MapValue "(string \<times> Value) list"
  | NullValue

section \<open>Rules: \<open>rules/rule.go\<close>\<close>

datatype LogicalOperator = Undefined | And | Or

datatype Operator =
  Equals | NotEquals | LessThan | LessThanOrEqualTo | GreaterThan | GreaterThanOrEqualTo | In

datatype CollectionOperationModifier = CollOne | CollAny | CollAll

text \<open>
  \<open>Expression\<close> and \<open>Permission\<close> as \<open>rules.Parse\<close> builds them.  Both structs call
  their join field \<open>Condition\<close>; the permission's fields carry a prefix here.
\<close>

record Expression =
  A :: Value
  B :: Value
  Operator :: Operator
  Modifier :: CollectionOperationModifier
  Condition :: LogicalOperator

record Permission =
  PermName :: string
  PermCondition :: LogicalOperator

record Rule =
  RuleCommand :: string
  Conditions :: "Expression list"
  Permissions :: "Permission list"

subsection \<open>\<open>Rule.Allowed\<close>\<close>

text \<open>\<open>hasPermission\<close>: the linear search over the user's permission strings.\<close>

fun hasPermission :: "Permission \<Rightarrow> string list \<Rightarrow> bool" where
  "hasPermission required [] = False"
| "hasPermission required (p # permissions) =
     (if p = PermName required then True else hasPermission required permissions)"

text \<open>
  The loop \<open>for i := 1; i < len(r.Permissions); i++\<close>, on the rest of the list.  An
  element whose join is neither \<open>And\<close> nor \<open>Or\<close> falls through both \<open>if\<close>s.
\<close>

fun Allowed_loop :: "string list \<Rightarrow> bool \<Rightarrow> Permission list \<Rightarrow> bool" where
  "Allowed_loop permissions result [] = result"
| "Allowed_loop permissions result (p # ps) =
     (if PermCondition p = And
      then Allowed_loop permissions (result \<and> hasPermission p permissions) ps
      else if PermCondition p = Or
      then Allowed_loop permissions (result \<or> hasPermission p permissions) ps
      else Allowed_loop permissions result ps)"

definition Allowed :: "Rule \<Rightarrow> string list \<Rightarrow> bool" where
  "Allowed r permissions =
     (case Permissions r of
        [] \<Rightarrow> True
      | p # ps \<Rightarrow> Allowed_loop permissions (hasPermission p permissions) ps)"

subsection \<open>\<open>Rule.Matches\<close>\<close>

text \<open>
  \<open>Expression.Evaluate\<close> is not among the source files, so \<open>Matches\<close> takes it as a
  parameter.  An evaluation may fail to produce a value (a panic on a reference it cannot
  resolve): it returns \<open>None\<close> then, and so does \<open>Matches\<close>, since nothing recovers.

  To say which conditions are evaluated, \<open>Matches\<close> also returns the calls to \<open>Evaluate\<close>
  it makes, in order; a call in the loop is recorded with the accumulator \<open>result\<close> as it
  stood before the call.
\<close>

datatype EvalCall = EvalFirst Expression | EvalJoined bool Expression

fun called :: "EvalCall \<Rightarrow> Expression" where
  "called (EvalFirst c) = c"
| "called (EvalJoined result c) = c"

text \<open>
  Go's \<open>result && c.Evaluate(env)\<close> evaluates its right operand only when \<open>result\<close> is
  true, and \<open>result || c.Evaluate(env)\<close> only when it is false.
\<close>

fun Matches_loop ::
  "(Expression \<Rightarrow> 'env \<Rightarrow> bool option) \<Rightarrow> 'env \<Rightarrow> bool \<Rightarrow> EvalCall list \<Rightarrow>
   Expression list \<Rightarrow> bool option \<times> EvalCall list" where
  "Matches_loop Evaluate env result calls [] = (Some result, calls)"
| "Matches_loop Evaluate env result calls (c # cs) =
     (if Condition c = And then
        (if result then
           (case Evaluate c env of
              None \<Rightarrow> (None, calls @ [EvalJoined result c])
            | Some v \<Rightarrow> Matches_loop Evaluate env v (calls @ [EvalJoined result c]) cs)
         else Matches_loop Evaluate env False calls cs)
      else if Condition c = Or then
        (if result then Matches_loop Evaluate env True calls cs
         else
           (case Evaluate c env of
              None \<Rightarrow> (None, calls @ [EvalJoined result c])
            | Some v \<Rightarrow> Matches_loop Evaluate env v (calls @ [EvalJoined result c]) cs))
      else Matches_loop Evaluate env result calls cs)"

definition Matches ::
  "(Expression \<Rightarrow> 'env \<Rightarrow> bool option) \<Rightarrow> Rule \<Rightarrow> 'env \<Rightarrow> bool option \<times> EvalCall list" where
  "Matches Evaluate r env =
     (case Conditions r of
        [] \<Rightarrow> (Some True, [])
      | c # cs \<Rightarrow>
          (case Evaluate c env of
             None \<Rightarrow> (None, [EvalFirst c])
           | Some v \<Rightarrow> Matches_loop Evaluate env v [EvalFirst c] cs))"

text \<open>
  The fold as the specification words it: the accumulator is joined with each later
  element by that element's \<open>and\<close> or \<open>or\<close>, left to right, with no precedence.  The
  specification allows \<open>Undefined\<close> on the first element only, so the fold says nothing
  about such an element further on.
\<close>

fun left_fold :: "bool \<Rightarrow> (LogicalOperator \<times> bool) list \<Rightarrow> bool" where
  "left_fold acc [] = acc"
| "left_fold acc ((And, b) # xs) = left_fold (acc \<and> b) xs"
| "left_fold acc ((Or, b) # xs) = left_fold (acc \<or> b) xs"

definition joined :: "LogicalOperator \<Rightarrow> bool" where
  "joined j = (j = And \<or> j = Or)"

text \<open>
  A recorded call respects short-circuit evaluation: a call in the loop was made for an
  \<open>And\<close> with the accumulator true, or for an \<open>Or\<close> with the accumulator false.
\<close>

definition short_circuit :: "EvalCall \<Rightarrow> bool" where
  "short_circuit call =
     (case call of
        EvalFirst c \<Rightarrow> True
      | EvalJoined result c \<Rightarrow> (Condition c = And \<and> result) \<or> (Condition c = Or \<and> \<not> result))"

section \<open>Commands: \<open>command/command.go\<close>\<close>

text \<open>
  Strings are lists of characters, one per rune; for ASCII text that is Go's string,
  and every slicing below happens after ASCII dashes or at an ASCII colon.
\<close>

text \<open>
  The errors the code below returns, of all its packages: those of \<open>Parse\<close> (the empty
  token list, \<open>ErrInvalidBundleCommandPair\<close>, a failure of the inferrer), those of
  \<open>dataaccess/errs\<close>, and a failure of the random source.
\<close>

datatype Error =
    ErrEmptyTokens
  | ErrInvalidBundleCommandPair
  | ErrInfer string
  | ErrEmptyRoleName
  | ErrRoleExists
  | ErrNoSuchRole
  | ErrEmptyUserName
  | ErrNoSuchUser
  | ErrNoSuchToken
  | ErrRandom

record CommandOption =
  Name :: string
  Value :: Value

record Command =
  Bundle :: string
  Command :: string
  Options :: "string \<rightharpoonup> CommandOption"
  Parameters :: "Value list"

record parseOptions =
  agnosticDashes :: bool
  assumeOptionArguments :: bool
  aliases :: "string \<rightharpoonup> string"
  hasArg :: "string \<rightharpoonup> bool"

type_synonym ParseOption = "parseOptions \<Rightarrow> parseOptions"

definition ParseAgnosticDashes :: "bool \<Rightarrow> ParseOption" where
  "ParseAgnosticDashes agnostic po = po\<lparr>agnosticDashes := agnostic\<rparr>"

definition ParseAssumeOptionArguments :: "bool \<Rightarrow> ParseOption" where
  "ParseAssumeOptionArguments assume po = po\<lparr>assumeOptionArguments := assume\<rparr>"

definition ParseOptionHasArgument :: "string \<Rightarrow> bool \<Rightarrow> ParseOption" where
  "ParseOptionHasArgument option has po = po\<lparr>hasArg := (hasArg po)(option \<mapsto> has)\<rparr>"

definition ParseOptionAlias :: "string \<Rightarrow> string \<Rightarrow> ParseOption" where
  "ParseOptionAlias alias name po = po\<lparr>aliases := (aliases po)(alias \<mapsto> name)\<rparr>"

text \<open>\<open>strings.Split(name, ":")\<close>: the pieces between the colons, at least one piece.\<close>

fun split_colon :: "string \<Rightarrow> string list" where
  "split_colon [] = [[]]"
| "split_colon (ch # s) =
     (if ch = CHR '':'' then [] # split_colon s
      else (case split_colon s of
              piece # pieces \<Rightarrow> (ch # piece) # pieces
            | [] \<Rightarrow> [[ch]]))"

definition SplitCommand :: "string \<Rightarrow> Error + string \<times> string" where
  "SplitCommand name =
     (case split_colon name of
        [command] \<Rightarrow> Inr ([], command)
      | [bundle, command] \<Rightarrow> Inr (bundle, command)
      | _ \<Rightarrow> Inl ErrInvalidBundleCommandPair)"

definition buildOption :: "string \<Rightarrow> parseOptions \<Rightarrow> CommandOption" where
  "buildOption name po =
     (case aliases po name of
        Some n \<Rightarrow> \<lparr>Name = n, Value = BoolValue True\<rparr>
      | None \<Rightarrow> \<lparr>Name = name, Value = BoolValue True\<rparr>)"

fun dashCount :: "string \<Rightarrow> nat" where
  "dashCount [] = 0"
| "dashCount (ch # str) = (if ch \<noteq> CHR ''-'' then 0 else Suc (dashCount str))"

text \<open>
  \<open>Inferrer.InferAll\<close> is not among the source files.  Modelled from the spec:
  positional parameter values are inferred one by one, by the inferrer \<open>infer\<close> that
  \<open>Parse\<close> is given; the first failure is the result.
\<close>

fun InferAll :: "(string \<Rightarrow> Error + Value) \<Rightarrow> string list \<Rightarrow> Error + Value list" where
  "InferAll infer [] = Inr []"
| "InferAll infer (t # ts) =
     (case infer t of
        Inl e \<Rightarrow> Inl e
      | Inr v \<Rightarrow> (case InferAll infer ts of Inl e \<Rightarrow> Inl e | Inr vs \<Rightarrow> Inr (v # vs)))"

text \<open>
  The inner loop \<open>for _, ch := range t[1:]\<close>: one option per character, each stored,
  the last one left in \<open>lastOption\<close>.
\<close>

fun short_options ::
  "parseOptions \<Rightarrow> string \<Rightarrow> (string \<rightharpoonup> CommandOption) \<times> CommandOption option \<Rightarrow>
   (string \<rightharpoonup> CommandOption) \<times> CommandOption option" where
  "short_options po [] (opts, lastOption) = (opts, lastOption)"
| "short_options po (ch # s) (opts, lastOption) =
     (let opt = buildOption [ch] po in short_options po s (opts(Name opt \<mapsto> opt), Some opt))"

text \<open>
  The loop \<open>for i, t := range tokens\<close> of \<open>Parse\<close>, on the tokens from \<open>i\<close> on.
  \<open>lastOption\<close> is the pointer of the source: \<open>None\<close> for \<open>nil\<close>.  On an error the source
  returns the command built so far beside the error; the model returns the error alone.
\<close>

fun Parse_loop ::
  "(string \<Rightarrow> Error + Value) \<Rightarrow> parseOptions \<Rightarrow> Command \<Rightarrow> CommandOption option \<Rightarrow>
   string list \<Rightarrow> Error + Command" where
  "Parse_loop infer po cmd lastOption [] = Inr cmd"
| "Parse_loop infer po cmd lastOption (t # tokens) =
     (if t = ''--'' then
        (case InferAll infer tokens of
           Inl err \<Rightarrow> Inl err
         | Inr vs \<Rightarrow> Inr (cmd\<lparr>Parameters := vs\<rparr>))
      else if length t \<ge> 2 \<and> dashCount t = 2 then
        (let opt = buildOption (drop 2 t) po
         in Parse_loop infer po (cmd\<lparr>Options := (Options cmd)(Name opt \<mapsto> opt)\<rparr>) (Some opt) tokens)
      else if length t \<ge> 1 \<and> dashCount t = 1 then
        (if agnosticDashes po then
           (let opt = buildOption (drop 1 t) po
            in Parse_loop infer po (cmd\<lparr>Options := (Options cmd)(Name opt \<mapsto> opt)\<rparr>) (Some opt)
                 tokens)
         else
           (case short_options po (drop 1 t) (Options cmd, lastOption) of
              (opts, lastOption') \<Rightarrow>
                Parse_loop infer po (cmd\<lparr>Options := opts\<rparr>) lastOption' tokens))
      else
        (case lastOption of
           Some opt \<Rightarrow>
             (if (case hasArg po (Name opt) of
                    Some explicitHas \<Rightarrow> explicitHas
                  | None \<Rightarrow> assumeOptionArguments po)
              then
                (case infer t of
                   Inl err \<Rightarrow> Inl err
                 | Inr term \<Rightarrow>
                     Parse_loop infer po
                       (cmd\<lparr>Options := (Options cmd)(Name opt \<mapsto> opt\<lparr>Value := term\<rparr>)\<rparr>) None tokens)
              else
                (case InferAll infer (t # tokens) of
                   Inl err \<Rightarrow> Inl err
                 | Inr vs \<Rightarrow> Inr (cmd\<lparr>Parameters := vs\<rparr>)))
         | None \<Rightarrow>
             (case InferAll infer (t # tokens) of
                Inl err \<Rightarrow> Inl err
              | Inr vs \<Rightarrow> Inr (cmd\<lparr>Parameters := vs\<rparr>))))"

definition default_parseOptions :: parseOptions where
  "default_parseOptions =
     \<lparr>agnosticDashes = False, assumeOptionArguments = False,
      aliases = Map.empty, hasArg = Map.empty\<rparr>"

text \<open>
  \<open>Parse\<close>.  The inferrer \<open>types.Inferrer{}.ComplexTypes(false).StrictStrings(false)\<close> is
  the parameter \<open>infer\<close>; \<open>options\<close> are applied in order to the default settings.
\<close>

definition Parse ::
  "(string \<Rightarrow> Error + Value) \<Rightarrow> string list \<Rightarrow> ParseOption list \<Rightarrow> Error + Command" where
  "Parse infer tokens options =
     (let po = foldl (\<lambda>po o'. o' po) default_parseOptions options in
      case tokens of
        [] \<Rightarrow> Inl ErrEmptyTokens
      | t0 # rest \<Rightarrow>
          (case SplitCommand t0 of
             Inl err \<Rightarrow> Inl err
           | Inr (bundleName, commandName) \<Rightarrow>
               Parse_loop infer po
                 \<lparr>Bundle = bundleName, Command = commandName, Options = Map.empty, Parameters = []\<rparr>
                 None rest))"

text \<open>
  \<open>CommandParameters.String\<close>.  \<open>fmt.Sprintf("%v", v)\<close> prints a value by its own
  \<open>String\<close> method, which is not among the source files: the parameter \<open>sprint\<close>.  The
  loop \<open>for i := 0; i < len(c); i++\<close> is the \<open>map\<close> over the whole list.
\<close>

definition CommandParameters_String :: "(Value \<Rightarrow> string) \<Rightarrow> Value list \<Rightarrow> string" where
  "CommandParameters_String sprint c =
     (case c of
        [] \<Rightarrow> []
      | c0 # _ \<Rightarrow> sprint c0 @ concat (map (\<lambda>ci. CHR '' '' # sprint ci) c))"

subsection \<open>The inferrer of \<open>Parse\<close>\<close>

definition is_digit :: "char \<Rightarrow> bool" where
  "is_digit ch = (CHR ''0'' \<le> ch \<and> ch \<le> CHR ''9'')"

definition all_digits :: "string \<Rightarrow> bool" where
  "all_digits s = (s \<noteq> [] \<and> list_all is_digit s)"

definition strip_minus :: "string \<Rightarrow> string" where
  "strip_minus s = (if s \<noteq> [] \<and> hd s = CHR ''-'' then tl s else s)"

definition strip_sign :: "string \<Rightarrow> string" where
  "strip_sign s = (if s \<noteq> [] \<and> (hd s = CHR ''+'' \<or> hd s = CHR ''-'') then tl s else s)"

definition decimal :: "string \<Rightarrow> int" where
  "decimal s = foldl (\<lambda>n ch. 10 * n + (of_char ch - 48)) 0 s"

definition is_int_lexeme :: "string \<Rightarrow> bool" where
  "is_int_lexeme s = all_digits (strip_minus s)"

definition is_fraction :: "string \<Rightarrow> bool" where
  "is_fraction s =
     (let whole = takeWhile (\<lambda>ch. ch \<noteq> CHR ''.'') s;
          rest = dropWhile (\<lambda>ch. ch \<noteq> CHR ''.'') s
      in all_digits whole \<and> rest \<noteq> [] \<and> all_digits (tl rest))"

definition is_float_lexeme :: "string \<Rightarrow> bool" where
  "is_float_lexeme s =
     (let u = strip_minus s;
          mantissa = takeWhile (\<lambda>ch. ch \<noteq> CHR ''e'' \<and> ch \<noteq> CHR ''E'') u;
          rest = dropWhile (\<lambda>ch. ch \<noteq> CHR ''e'' \<and> ch \<noteq> CHR ''E'') u
      in if rest = [] then is_fraction u
         else (all_digits mantissa \<or> is_fraction mantissa) \<and> all_digits (strip_sign (tl rest)))"

definition lower :: "char \<Rightarrow> char" where
  "lower ch = (if CHR ''A'' \<le> ch \<and> ch \<le> CHR ''Z'' then char_of (of_char ch + (32::nat)) else ch)"

definition enclosed :: "char \<Rightarrow> string \<Rightarrow> bool" where
  "enclosed q s = (length s \<ge> 2 \<and> hd s = q \<and> last s = q)"

definition inner :: "string \<Rightarrow> string" where
  "inner s = butlast (tl s)"

text \<open>The escape sequences of a quoted string: backslash, n, t and the two quotes.\<close>

fun unescape :: "string \<Rightarrow> string" where
  "unescape (b # ch # s) =
     (if b = CHR 0x5C then
        (if ch = CHR 0x5C \<or> ch = CHR 0x22 \<or> ch = CHR 0x27 then ch # unescape s
         else if ch = CHR ''n'' then CHR 0x0A # unescape s
         else if ch = CHR ''t'' then CHR 0x09 # unescape s
         else b # unescape (ch # s))
      else b # unescape (ch # s))"
| "unescape s = s"

text \<open>
  Modelled from the spec: \<open>types.Inferrer.Infer\<close>, as \<open>Parse\<close> configures it
  (\<open>ComplexTypes(false)\<close>, \<open>StrictStrings(false)\<close>); the package \<open>types\<close> is not among
  the source files.  The first match wins: a token enclosed in slashes is a regular
  expression (and fails when it does not compile: \<open>compiles\<close> stands for the regular
  expression compiler), a token of digits with an optional minus is an integer, a token of
  one of the two float shapes is a float, \<open>true\<close> and \<open>false\<close> in any case are booleans,
  and anything else is a string, stripped of its quotes when it is wrapped in matching ones.
  Brackets and braces have no special meaning with complex types off.  What happens to an
  integer beyond 64 bits is not said and not modelled.
\<close>

definition Infer :: "(string \<Rightarrow> bool) \<Rightarrow> string \<Rightarrow> Error + Value" where
  "Infer compiles t =
     (if enclosed CHR ''/'' t then
        (if compiles (inner t) then Inr (RegexValue (inner t)) else Inl (ErrInfer t))
      else if is_int_lexeme t then
        Inr (IntValue (if hd t = CHR ''-'' then - decimal (tl t) else decimal t))
      else if is_float_lexeme t then Inr (FloatValue t)
      else if map lower t = ''true'' then Inr (BoolValue True)
      else if map lower t = ''false'' then Inr (BoolValue False)
      else if enclosed (CHR 0x22) t \<or> enclosed (CHR 0x27) t then
        Inr (StringValue (unescape (inner t)))
      else Inr (StringValue t))"

section \<open>The in-memory store: \<open>dataaccess/memory\<close>\<close>

subsection \<open>Slices\<close>

text \<open>
  A Go slice is a header (the address of its backing array, a length and a capacity);
  slices with the same address share the array.  The arrays live in a store, by
  address; address 0 is the empty array of \<open>nil\<close> and of \<open>[]T{}\<close>.
\<close>

record slice =
  ptr :: nat
  len :: nat
  cap :: nat

type_synonym 'a arrays = "nat \<Rightarrow> nat \<Rightarrow> 'a"

definition nil_slice :: slice where
  "nil_slice = \<lparr>ptr = 0, len = 0, cap = 0\<rparr>"

text \<open>What a slice reads: the first \<open>len\<close> cells of its array.\<close>

definition elems :: "'a arrays \<Rightarrow> slice \<Rightarrow> 'a list" where
  "elems h s = map (h (ptr s)) [0..<len s]"

text \<open>\<open>s[i] = v\<close> on a slice: a write into the backing array, a panic out of range.\<close>

definition slice_set :: "'a arrays \<Rightarrow> slice \<Rightarrow> nat \<Rightarrow> 'a \<Rightarrow> 'a arrays option" where
  "slice_set h s i v = (if i < len s then Some (h(ptr s := (h (ptr s))(i := v))) else None)"

text \<open>
  The capacity of a grown slice is the runtime's choice (Go promises only that it is
  enough); doubling stands for it, and nothing below depends on the amount.
\<close>

definition growcap :: "nat \<Rightarrow> nat" where
  "growcap c = (if c = 0 then 1 else 2 * c)"

text \<open>
  \<open>append(s, v)\<close>: in place when the capacity allows, else into a new array at the next
  free address, after a copy of the elements.
\<close>

definition append_slice :: "'a arrays \<Rightarrow> nat \<Rightarrow> slice \<Rightarrow> 'a \<Rightarrow> 'a arrays \<times> nat \<times> slice" where
  "append_slice h next s v =
     (if len s < cap s then
        (h(ptr s := (h (ptr s))(len s := v)), next, s\<lparr>len := Suc (len s)\<rparr>)
      else
        (h(next := (\<lambda>i. if i < len s then h (ptr s) i else v)),
         Suc next,
         \<lparr>ptr = next, len = Suc (len s), cap = growcap (cap s)\<rparr>))"

text \<open>
  \<open>sort.Slice(s, less)\<close> with \<open>less\<close> comparing keys: the array cells of the slice are
  permuted into key order, in place.  \<open>sort.Slice\<close> is not stable; insertion by key stands
  for it, which differs at most in the order of elements with equal keys.
\<close>

definition sort_slice :: "('a \<Rightarrow> string) \<Rightarrow> 'a arrays \<Rightarrow> slice \<Rightarrow> 'a arrays" where
  "sort_slice key h s =
     h(ptr s := (\<lambda>i. if i < len s then sort_key key (elems h s) ! i else h (ptr s) i))"

subsection \<open>The data\<close>

record RolePermission =
  BundleName :: string
  Permission :: string

text \<open>
  Modelled from the spec: \<open>RolePermission.String\<close> (package \<open>rest\<close> is not among the
  source files), the fully qualified \<open>bundle:permission\<close>.
\<close>

definition RolePermission_String :: "RolePermission \<Rightarrow> string" where
  "RolePermission_String p = BundleName p @ '':'' @ Permission p"

text \<open>Of \<open>rest.Group\<close> and \<open>rest.User\<close> only the fields the code below touches.\<close>

record Group =
  GroupName :: string

record User =
  Username :: string
  Email :: string

record Role =
  RoleName :: string
  RolePermissions :: slice
  Groups :: slice

record Token =
  Duration :: int
  Token :: string
  User :: string
  ValidFrom :: int
  ValidUntil :: int

text \<open>
  The store.  \<open>da.roles\<close> maps a name to a pointer to its role; no code here keeps such a
  pointer elsewhere or stores \<open>nil\<close>, so the map holds the role itself.  The two token
  maps are package variables of the source; they are part of the state here.
\<close>

record InMemoryDataAccess =
  users :: "string \<rightharpoonup> User"
  roles :: "string \<rightharpoonup> Role"
  permArrays :: "RolePermission arrays"
  groupArrays :: "Group arrays"
  nextAddr :: nat
  tokensByUser :: "string \<rightharpoonup> Token"
  tokensByValue :: "string \<rightharpoonup> Token"

definition empty_store :: InMemoryDataAccess where
  "empty_store =
     \<lparr>users = Map.empty, roles = Map.empty,
      permArrays = (\<lambda>a i. \<lparr>BundleName = [], Permission = []\<rparr>),
      groupArrays = (\<lambda>a i. \<lparr>GroupName = []\<rparr>),
      nextAddr = 1, tokensByUser = Map.empty, tokensByValue = Map.empty\<rparr>"

subsection \<open>Roles\<close>

text \<open>
  Every operation returns its result beside the store it leaves.  The context argument
  of the source is unused by these operations and left out.
\<close>

definition RoleCreate :: "InMemoryDataAccess \<Rightarrow> string \<Rightarrow> Error option \<times> InMemoryDataAccess" where
  "RoleCreate da name =
     (if name = [] then (Some ErrEmptyRoleName, da)
      else if roles da name \<noteq> None then (Some ErrRoleExists, da)
      else (None,
            da\<lparr>roles := (roles da)(name \<mapsto>
                 \<lparr>RoleName = name, RolePermissions = nil_slice, Groups = nil_slice\<rparr>)\<rparr>))"

definition RoleDelete :: "InMemoryDataAccess \<Rightarrow> string \<Rightarrow> Error option \<times> InMemoryDataAccess" where
  "RoleDelete da name =
     (if name = [] then (Some ErrEmptyRoleName, da)
      else if roles da name = None then (Some ErrNoSuchRole, da)
      else (None, da\<lparr>roles := (roles da)(name := None)\<rparr>))"

definition RoleExists :: "InMemoryDataAccess \<Rightarrow> string \<Rightarrow> Error + bool" where
  "RoleExists da name = (if name = [] then Inl ErrEmptyRoleName else Inr (roles da name \<noteq> None))"

text \<open>\<open>RoleGet\<close> returns \<open>*role\<close>: a copy of the struct, slice headers included.\<close>

definition RoleGet :: "InMemoryDataAccess \<Rightarrow> string \<Rightarrow> Error + Role" where
  "RoleGet da rolename =
     (if rolename = [] then Inl ErrEmptyRoleName
      else (case roles da rolename of
              None \<Rightarrow> Inl ErrNoSuchRole
            | Some role \<Rightarrow> Inr role))"

definition RoleGrantPermission ::
  "InMemoryDataAccess \<Rightarrow> string \<Rightarrow> string \<Rightarrow> string \<Rightarrow> Error option \<times> InMemoryDataAccess" where
  "RoleGrantPermission da rolename bundle permission =
     (case roles da rolename of
        None \<Rightarrow> (Some ErrNoSuchRole, da)
      | Some role \<Rightarrow>
          (case append_slice (permArrays da) (nextAddr da) (RolePermissions role)
                  \<lparr>BundleName = bundle, Permission = permission\<rparr> of
             (h, next, perms) \<Rightarrow>
               (None,
                da\<lparr>permArrays := h, nextAddr := next,
                   roles := (roles da)(rolename \<mapsto> role\<lparr>RolePermissions := perms\<rparr>)\<rparr>)))"

text \<open>\<open>RolePermissionAdd\<close>, of the later revision of the file, has the same body.\<close>

definition RolePermissionAdd ::
  "InMemoryDataAccess \<Rightarrow> string \<Rightarrow> string \<Rightarrow> string \<Rightarrow> Error option \<times> InMemoryDataAccess" where
  "RolePermissionAdd da rolename bundlename permission =
     RoleGrantPermission da rolename bundlename permission"

text \<open>
  The loop of \<open>RoleRevokePermission\<close>: the permissions kept are appended, one by one, to
  a slice that starts empty.
\<close>

fun append_all ::
  "'a arrays \<Rightarrow> nat \<Rightarrow> slice \<Rightarrow> 'a list \<Rightarrow> 'a arrays \<times> nat \<times> slice" where
  "append_all h next s [] = (h, next, s)"
| "append_all h next s (v # vs) =
     (case append_slice h next s v of (h', next', s') \<Rightarrow> append_all h' next' s' vs)"

definition RoleRevokePermission ::
  "InMemoryDataAccess \<Rightarrow> string \<Rightarrow> string \<Rightarrow> string \<Rightarrow> Error option \<times> InMemoryDataAccess" where
  "RoleRevokePermission da rolename bundle permission =
     (case roles da rolename of
        None \<Rightarrow> (Some ErrNoSuchRole, da)
      | Some role \<Rightarrow>
          (case append_all (permArrays da) (nextAddr da) nil_slice
                  (filter (\<lambda>p. \<not> (BundleName p = bundle \<and> Permission p = permission))
                     (elems (permArrays da) (RolePermissions role))) of
             (h, next, perms) \<Rightarrow>
               (None,
                da\<lparr>permArrays := h, nextAddr := next,
                   roles := (roles da)(rolename \<mapsto> role\<lparr>RolePermissions := perms\<rparr>)\<rparr>)))"

text \<open>
  \<open>RolePermissionList\<close>: \<open>perms := role.Permissions\<close> copies the header of the slice kept
  in the store, and \<open>sort.Slice\<close> then sorts the array behind it.
\<close>

definition RolePermissionList ::
  "InMemoryDataAccess \<Rightarrow> string \<Rightarrow> (Error + slice) \<times> InMemoryDataAccess" where
  "RolePermissionList da rolename =
     (case RoleGet da rolename of
        Inl err \<Rightarrow> (Inl err, da)
      | Inr role \<Rightarrow>
          (let perms = RolePermissions role
           in (Inr perms,
               da\<lparr>permArrays := sort_slice RolePermission_String (permArrays da) perms\<rparr>)))"

definition RolePermissionExists ::
  "InMemoryDataAccess \<Rightarrow> string \<Rightarrow> string \<Rightarrow> string \<Rightarrow> (Error + bool) \<times> InMemoryDataAccess" where
  "RolePermissionExists da rolename bundlename permission =
     (case RolePermissionList da rolename of
        (Inl err, da') \<Rightarrow> (Inl err, da')
      | (Inr perms, da') \<Rightarrow>
          (Inr (list_ex (\<lambda>p. BundleName p = bundlename \<and> Permission p = permission)
                  (elems (permArrays da') perms)),
           da'))"

definition RoleGroupList ::
  "InMemoryDataAccess \<Rightarrow> string \<Rightarrow> (Error + slice) \<times> InMemoryDataAccess" where
  "RoleGroupList da rolename =
     (case roles da rolename of
        None \<Rightarrow> (Inl ErrNoSuchRole, da)
      | Some role \<Rightarrow> (Inr (Groups role), da))"

text \<open>
  What the store reads for a role: the elements of its permission slice and of its
  group slice, in the arrays as they are now.
\<close>

definition stored_permissions :: "InMemoryDataAccess \<Rightarrow> string \<Rightarrow> RolePermission list option" where
  "stored_permissions da rolename =
     map_option (\<lambda>role. elems (permArrays da) (RolePermissions role)) (roles da rolename)"

definition stored_groups :: "InMemoryDataAccess \<Rightarrow> string \<Rightarrow> Group list option" where
  "stored_groups da rolename =
     map_option (\<lambda>role. elems (groupArrays da) (Groups role)) (roles da rolename)"

subsection \<open>Tokens: \<open>token-access.go\<close>\<close>

text \<open>
  Time is a count of nanoseconds, and so is a duration.  Modelled from the spec:
  \<open>Token.IsExpired\<close> (package \<open>rest\<close> is not among the source files); a token is good
  while \<open>now < valid_until\<close>.  The clock is the argument \<open>now\<close>.
\<close>

definition IsExpired :: "int \<Rightarrow> Token \<Rightarrow> bool" where
  "IsExpired now token = (\<not> now < ValidUntil token)"

text \<open>
  Modelled from the spec: \<open>UserExists\<close> (the user operations are not among the source
  files): the empty name is refused before the lookup, as \<open>RoleExists\<close> does.
\<close>

definition UserExists :: "InMemoryDataAccess \<Rightarrow> string \<Rightarrow> Error + bool" where
  "UserExists da username =
     (if username = [] then Inl ErrEmptyUserName else Inr (users da username \<noteq> None))"

definition TokenRetrieveByUser :: "InMemoryDataAccess \<Rightarrow> string \<Rightarrow> Error + Token" where
  "TokenRetrieveByUser da username =
     (case tokensByUser da username of Some token \<Rightarrow> Inr token | None \<Rightarrow> Inl ErrNoSuchToken)"

definition TokenRetrieveByToken :: "InMemoryDataAccess \<Rightarrow> string \<Rightarrow> Error + Token" where
  "TokenRetrieveByToken da tokenString =
     (case tokensByValue da tokenString of Some token \<Rightarrow> Inr token | None \<Rightarrow> Inl ErrNoSuchToken)"

definition TokenEvaluate :: "InMemoryDataAccess \<Rightarrow> int \<Rightarrow> string \<Rightarrow> bool" where
  "TokenEvaluate da now tokenString =
     (case TokenRetrieveByToken da tokenString of
        Inl err \<Rightarrow> False
      | Inr token \<Rightarrow> \<not> IsExpired now token)"

definition TokenInvalidate ::
  "InMemoryDataAccess \<Rightarrow> string \<Rightarrow> Error option \<times> InMemoryDataAccess" where
  "TokenInvalidate da tokenString =
     (case TokenRetrieveByToken da tokenString of
        Inl err \<Rightarrow> (Some err, da)
      | Inr token \<Rightarrow>
          (None,
           da\<lparr>tokensByUser := (tokensByUser da)(User token := None),
              tokensByValue := (tokensByValue da)(Token token := None)\<rparr>))"

text \<open>
  \<open>TokenGenerate\<close>.  Two things come from outside: \<open>random\<close> is what
  \<open>data.GenerateRandomToken(64)\<close> returns (a token string, or its error), and \<open>now\<close> is
  \<open>time.Now().UTC()\<close>.
\<close>

definition TokenGenerate ::
  "InMemoryDataAccess \<Rightarrow> string \<Rightarrow> int \<Rightarrow> Error + string \<Rightarrow> int \<Rightarrow>
   (Error + Token) \<times> InMemoryDataAccess" where
  "TokenGenerate da username duration random now =
     (case UserExists da username of
        Inl err \<Rightarrow> (Inl err, da)
      | Inr exists \<Rightarrow>
          if \<not> exists then (Inl ErrNoSuchUser, da)
          else
            (let da1 = (case TokenRetrieveByUser da username of
                          Inr token \<Rightarrow> snd (TokenInvalidate da (Token token))
                        | Inl err \<Rightarrow> da)
             in case random of
                  Inl err \<Rightarrow> (Inl err, da1)
                | Inr tokenString \<Rightarrow>
                    (let token = \<lparr>Duration = duration, Token = tokenString, User = username,
                                  ValidFrom = now, ValidUntil = now + duration\<rparr>
                     in (Inr token,
                         da1\<lparr>tokensByUser := (tokensByUser da1)(username \<mapsto> token),
                             tokensByValue := (tokensByValue da1)(tokenString \<mapsto> token)\<rparr>))))"

text \<open>
  The stores a call of \<open>TokenGenerate\<close> passes through: one after each assignment to or
  deletion from a token map, in the order of the statements (those of \<open>TokenInvalidate\<close>
  first, when it is called and finds the token).
\<close>

definition TokenInvalidate_steps :: "InMemoryDataAccess \<Rightarrow> string \<Rightarrow> InMemoryDataAccess list" where
  "TokenInvalidate_steps da tokenString =
     (case TokenRetrieveByToken da tokenString of
        Inl err \<Rightarrow> []
      | Inr token \<Rightarrow>
          [da\<lparr>tokensByUser := (tokensByUser da)(User token := None)\<rparr>,
           da\<lparr>tokensByUser := (tokensByUser da)(User token := None),
              tokensByValue := (tokensByValue da)(Token token := None)\<rparr>])"

definition TokenGenerate_steps ::
  "InMemoryDataAccess \<Rightarrow> string \<Rightarrow> int \<Rightarrow> Error + string \<Rightarrow> int \<Rightarrow> InMemoryDataAccess list" where
  "TokenGenerate_steps da username duration random now =
     (case UserExists da username of
        Inl err \<Rightarrow> []
      | Inr exists \<Rightarrow>
          if \<not> exists then []
          else
            (let inv = (case TokenRetrieveByUser da username of
                          Inr token \<Rightarrow> TokenInvalidate_steps da (Token token)
                        | Inl err \<Rightarrow> []);
                 da1 = last (da # inv)
             in case random of
                  Inl err \<Rightarrow> inv
                | Inr tokenString \<Rightarrow>
                    (let token = \<lparr>Duration = duration, Token = tokenString, User = username,
                                  ValidFrom = now, ValidUntil = now + duration\<rparr>
                     in inv @
                        [da1\<lparr>tokensByUser := (tokensByUser da1)(username \<mapsto> token)\<rparr>,
                         da1\<lparr>tokensByUser := (tokensByUser da1)(username \<mapsto> token),
                             tokensByValue := (tokensByValue da1)(tokenString \<mapsto> token)\<rparr>])))"

text \<open>A sequence of \<open>TokenGenerate\<close> calls for one user: what each call is given.\<close>

record GenerateCall =
  call_duration :: int
  call_random :: "Error + string"
  call_now :: int

fun TokenGenerate_calls ::
  "InMemoryDataAccess \<Rightarrow> string \<Rightarrow> GenerateCall list \<Rightarrow>
   (Error + Token) list \<times> InMemoryDataAccess list \<times> InMemoryDataAccess" where
  "TokenGenerate_calls da username [] = ([], [], da)"
| "TokenGenerate_calls da username (c # cs) =
     (case TokenGenerate da username (call_duration c) (call_random c) (call_now c) of
        (result, da') \<Rightarrow>
          (case TokenGenerate_calls da' username cs of
             (results, steps, da'') \<Rightarrow>
               (result # results,
                TokenGenerate_steps da username (call_duration c) (call_random c) (call_now c) @ steps,
                da'')))"

text \<open>
  The tokens the two maps hold for a user, and the maps holding at most one.
\<close>

definition tokens_of :: "InMemoryDataAccess \<Rightarrow> string \<Rightarrow> Token set" where
  "tokens_of da username =
     {token. tokensByUser da username = Some token} \<union>
     {token. \<exists>v. tokensByValue da v = Some token \<and> User token = username}"

definition at_most_one_token :: "InMemoryDataAccess \<Rightarrow> string \<Rightarrow> bool" where
  "at_most_one_token da username = (\<exists>token. tokens_of da username \<subseteq> {token})"

text \<open>
  The two maps agree: a token filed under a user is that user's and is filed under its
  own value, and a token filed under a value has that value and is filed under its user.
\<close>

definition maps_agree :: "InMemoryDataAccess \<Rightarrow> bool" where
  "maps_agree da =
     ((\<forall>u token. tokensByUser da u = Some token \<longrightarrow>
         User token = u \<and> tokensByValue da (Token token) = Some token) \<and>
      (\<forall>v token. tokensByValue da v = Some token \<longrightarrow>
         Token token = v \<and> tokensByUser da (User token) = Some token))"

text \<open>
  The token strings the random source hands to a sequence of calls.  The source draws 64
  random bytes for each; that no string comes twice, and none that the store already
  holds, is the assumption \<open>fresh\<close> on them.
\<close>

definition generated :: "GenerateCall list \<Rightarrow> string list" where
  "generated calls =
     concat (map (\<lambda>c. case call_random c of Inr tokenString \<Rightarrow> [tokenString] | Inl err \<Rightarrow> []) calls)"

text \<open>The tokens among the results of a sequence of calls, in order.\<close>

definition returned :: "(Error + Token) list \<Rightarrow> Token list" where
  "returned results =
     concat (map (\<lambda>r. case r of Inr token \<Rightarrow> [token] | Inl err \<Rightarrow> []) results)"

definition fresh :: "InMemoryDataAccess \<Rightarrow> GenerateCall list \<Rightarrow> bool" where
  "fresh da calls =
     (distinct (generated calls) \<and> set (generated calls) \<inter> dom (tokensByValue da) = {})"

text \<open>
  The store \<open>TokenGenerate\<close> works on after it has invalidated the user's token, if there
  was one.
\<close>

definition invalidated :: "InMemoryDataAccess \<Rightarrow> string \<Rightarrow> InMemoryDataAccess" where
  "invalidated da username =
     (case TokenRetrieveByUser da username of
        Inr token \<Rightarrow> snd (TokenInvalidate da (Token token))
      | Inl err \<Rightarrow> da)"

section \<open>Properties of rule evaluation\<close>

lemma Allowed_loop_left_fold:
  "\<forall>p \<in> set ps. joined (PermCondition p) \<Longrightarrow>
   Allowed_loop permissions result ps =
     left_fold result (map (\<lambda>p. (PermCondition p, hasPermission p permissions)) ps)"
  by (induction ps arbitrary: result) (auto simp: joined_def)

lemma Matches_loop_left_fold:
  "\<forall>c \<in> set cs. joined (Condition c) \<Longrightarrow>
   fst (Matches_loop (\<lambda>c e. Some (f c e)) env result calls cs) =
     Some (left_fold result (map (\<lambda>c. (Condition c, f c env)) cs))"
  by (induction cs arbitrary: result calls) (auto simp: joined_def)

lemma Matches_loop_skip:
  "Matches_loop Evaluate env result calls (filter (\<lambda>c. joined (Condition c)) cs) =
   Matches_loop Evaluate env result calls cs"
  by (induction cs arbitrary: result calls) (auto simp: joined_def split: option.splits)

lemma Allowed_loop_skip:
  "Allowed_loop permissions result (filter (\<lambda>p. joined (PermCondition p)) ps) =
   Allowed_loop permissions result ps"
  by (induction ps arbitrary: result) (auto simp: joined_def)

lemma Matches_loop_calls_subset:
  "set calls \<subseteq> set (snd (Matches_loop Evaluate env result calls cs))"
proof (induction cs arbitrary: result calls)
  case Nil
  then show ?case by simp
next
  case (Cons c cs)
  have ext: "set calls \<subseteq> set (snd (Matches_loop Evaluate env v (calls @ [call]) cs))" for v call
    using Cons.IH [of "calls @ [call]" v] by auto
  show ?case
    using Cons.IH [of calls] ext by (auto split: option.splits)
qed

lemma Matches_loop_calls_needed:
  "list_all short_circuit calls \<Longrightarrow>
   list_all short_circuit (snd (Matches_loop Evaluate env result calls cs))"
  by (induction cs arbitrary: result calls) (auto simp: short_circuit_def split: option.splits)

lemma Matches_loop_independent:
  "(\<forall>call \<in> set (snd (Matches_loop Evaluate env result calls cs)).
      Evaluate' (called call) env = Evaluate (called call) env) \<Longrightarrow>
   Matches_loop Evaluate' env result calls cs = Matches_loop Evaluate env result calls cs"
proof (induction cs arbitrary: result calls)
  case Nil
  then show ?case by simp
next
  case (Cons c cs)
  show ?case
  proof (cases "(Condition c = And \<and> result) \<or> (Condition c = Or \<and> \<not> result)")
    case False
    with Cons show ?thesis by auto
  next
    case True
    have "EvalJoined result c \<in> set (snd (Matches_loop Evaluate env result calls (c # cs)))"
      using True Matches_loop_calls_subset [of "calls @ [EvalJoined result c]" Evaluate env _ cs]
      by (auto split: option.splits)
    with Cons.prems have same: "Evaluate' c env = Evaluate c env" by fastforce
    show ?thesis
    proof (cases "Evaluate c env")
      case None
      with True same show ?thesis by auto
    next
      case (Some v)
      with True same Cons.prems
      have "Matches_loop Evaluate' env v (calls @ [EvalJoined result c]) cs =
            Matches_loop Evaluate env v (calls @ [EvalJoined result c]) cs"
        by (intro Cons.IH) auto
      with True same Some show ?thesis by auto
    qed
  qed
qed


text \<open>
  Claim C7.  \<open>Rule.Matches\<close> folds the conditions strictly from left to right, with no
  precedence between \<open>and\<close> and \<open>or\<close>: for every rule (and an evaluator that returns),
  the result is the left fold of the evaluations of the conditions joined by \<open>and\<close> or
  \<open>or\<close>, which are all the later conditions of a rule as the parser builds it; so
  \<open>x, and y, or z\<close> is \<open>(x and y) or z\<close>.  \<open>Rule.Allowed\<close> folds the permissions the same
  way.  A rule with no conditions matches, and a rule with no permissions allows.
\<close>

theorem Matches_Allowed_left_fold:
  "fst (Matches (\<lambda>c e. Some (f c e)) (r\<lparr>Conditions := c # cs\<rparr>) env) =
     Some (left_fold (f c env)
             (map (\<lambda>c. (Condition c, f c env)) (filter (\<lambda>c. joined (Condition c)) cs))) \<and>
   Allowed (r\<lparr>Permissions := p # ps\<rparr>) permissions =
     left_fold (hasPermission p permissions)
       (map (\<lambda>p. (PermCondition p, hasPermission p permissions))
          (filter (\<lambda>p. joined (PermCondition p)) ps)) \<and>
   fst (Matches (\<lambda>c e. Some (f c e))
          (r\<lparr>Conditions := [x, y\<lparr>Condition := And\<rparr>, z\<lparr>Condition := Or\<rparr>]\<rparr>) env) =
     Some ((f x env \<and> f (y\<lparr>Condition := And\<rparr>) env) \<or> f (z\<lparr>Condition := Or\<rparr>) env) \<and>
   Allowed (r\<lparr>Permissions := [p, q\<lparr>PermCondition := And\<rparr>, q'\<lparr>PermCondition := Or\<rparr>]\<rparr>)
       permissions =
     ((hasPermission p permissions \<and> hasPermission (q\<lparr>PermCondition := And\<rparr>) permissions) \<or>
      hasPermission (q'\<lparr>PermCondition := Or\<rparr>) permissions) \<and>
   Matches Evaluate (r\<lparr>Conditions := []\<rparr>) env = (Some True, []) \<and>
   Allowed (r\<lparr>Permissions := []\<rparr>) permissions = True"
proof -
  have "fst (Matches_loop (\<lambda>c e. Some (f c e)) env (f c env) [EvalFirst c] cs) =
        fst (Matches_loop (\<lambda>c e. Some (f c e)) env (f c env) [EvalFirst c]
               (filter (\<lambda>c. joined (Condition c)) cs))"
    by (simp add: Matches_loop_skip)
  also have "\<dots> = Some (left_fold (f c env)
             (map (\<lambda>c. (Condition c, f c env)) (filter (\<lambda>c. joined (Condition c)) cs)))"
    by (rule Matches_loop_left_fold) simp
  finally have "fst (Matches (\<lambda>c e. Some (f c e)) (r\<lparr>Conditions := c # cs\<rparr>) env) =
     Some (left_fold (f c env)
             (map (\<lambda>c. (Condition c, f c env)) (filter (\<lambda>c. joined (Condition c)) cs)))"
    by (simp add: Matches_def)
  moreover have "Allowed (r\<lparr>Permissions := p # ps\<rparr>) permissions =
     left_fold (hasPermission p permissions)
       (map (\<lambda>p. (PermCondition p, hasPermission p permissions))
          (filter (\<lambda>p. joined (PermCondition p)) ps))"
  proof -
    have "Allowed_loop permissions (hasPermission p permissions) ps =
          Allowed_loop permissions (hasPermission p permissions)
            (filter (\<lambda>p. joined (PermCondition p)) ps)"
      by (simp add: Allowed_loop_skip)
    also have "\<dots> = left_fold (hasPermission p permissions)
       (map (\<lambda>p. (PermCondition p, hasPermission p permissions))
          (filter (\<lambda>p. joined (PermCondition p)) ps))"
      by (rule Allowed_loop_left_fold) simp
    finally show ?thesis by (simp add: Allowed_def)
  qed
  moreover have "fst (Matches (\<lambda>c e. Some (f c e))
            (r\<lparr>Conditions := [x, y\<lparr>Condition := And\<rparr>, z\<lparr>Condition := Or\<rparr>]\<rparr>) env) =
       Some ((f x env \<and> f (y\<lparr>Condition := And\<rparr>) env) \<or> f (z\<lparr>Condition := Or\<rparr>) env)"
    by (simp add: Matches_def)
  moreover have "Allowed (r\<lparr>Permissions := [p, q\<lparr>PermCondition := And\<rparr>, q'\<lparr>PermCondition := Or\<rparr>]\<rparr>)
         permissions =
       ((hasPermission p permissions \<and> hasPermission (q\<lparr>PermCondition := And\<rparr>) permissions) \<or>
        hasPermission (q'\<lparr>PermCondition := Or\<rparr>) permissions)"
    by (simp add: Allowed_def)
  moreover have "Matches Evaluate (r\<lparr>Conditions := []\<rparr>) env = (Some True, [])"
    by (simp add: Matches_def)
  moreover have "Allowed (r\<lparr>Permissions := []\<rparr>) permissions = True"
    by (simp add: Allowed_def)
  ultimately show ?thesis by blast
qed

theorem Matches_Allowed_left_fold_witness:
  "fst (Matches (\<lambda>c e. Some (B c = e))
          \<lparr>RuleCommand = ''foo:bar'',
           Conditions =
             [\<lparr>A = StringValue ''x'', B = BoolValue True, Operator = Equals, Modifier = CollOne,
               Condition = Undefined\<rparr>,
              \<lparr>A = StringValue ''y'', B = BoolValue False, Operator = Equals, Modifier = CollOne,
               Condition = Or\<rparr>,
              \<lparr>A = StringValue ''z'', B = BoolValue False, Operator = Equals, Modifier = CollOne,
               Condition = And\<rparr>],
           Permissions = []\<rparr>
          (BoolValue True)) = Some False \<and>
   Allowed
     \<lparr>RuleCommand = ''foo:bar'', Conditions = [],
      Permissions =
        [\<lparr>PermName = ''foo:admin'', PermCondition = Undefined\<rparr>,
         \<lparr>PermName = ''foo:write'', PermCondition = Or\<rparr>,
         \<lparr>PermName = ''foo:read'', PermCondition = And\<rparr>]\<rparr>
     [''foo:admin''] = False"
  using Matches_Allowed_left_fold
      [where f = "\<lambda>c e. B c = e"
         and r = "\<lparr>RuleCommand = ''foo:bar'', Conditions = [], Permissions = []\<rparr>"
         and c = "\<lparr>A = StringValue ''x'', B = BoolValue True, Operator = Equals,
                   Modifier = CollOne, Condition = Undefined\<rparr>"
         and cs = "[\<lparr>A = StringValue ''y'', B = BoolValue False, Operator = Equals,
                     Modifier = CollOne, Condition = Or\<rparr>,
                    \<lparr>A = StringValue ''z'', B = BoolValue False, Operator = Equals,
                     Modifier = CollOne, Condition = And\<rparr>]"
         and env = "BoolValue True"
         and p = "\<lparr>PermName = ''foo:admin'', PermCondition = Undefined\<rparr>"
         and ps = "[\<lparr>PermName = ''foo:write'', PermCondition = Or\<rparr>,
                    \<lparr>PermName = ''foo:read'', PermCondition = And\<rparr>]"
         and permissions = "[''foo:admin'']"]
  by (simp add: joined_def)

text \<open>
  Claim C8.  \<open>Rule.Matches\<close> short-circuits: among the calls of \<open>Evaluate\<close> it makes, none
  is for a condition joined by \<open>and\<close> with the accumulator false, and none for a condition
  joined by \<open>or\<close> with the accumulator true.  Hence an evaluator that agrees with
  \<open>Evaluate\<close> on the conditions that were evaluated gives the same result and the same
  calls, whatever it does (or fails to do) on the others; and in \<open>false and y\<close> the
  condition \<open>y\<close> is never evaluated.
\<close>

theorem Matches_short_circuit:
  "(\<forall>c. EvalJoined False c \<in> set (snd (Matches Evaluate r env)) \<longrightarrow> Condition c \<noteq> And) \<and>
   (\<forall>c. EvalJoined True c \<in> set (snd (Matches Evaluate r env)) \<longrightarrow> Condition c \<noteq> Or) \<and>
   ((\<forall>call \<in> set (snd (Matches Evaluate r env)).
       Evaluate' (called call) env = Evaluate (called call) env) \<longrightarrow>
    Matches Evaluate' r env = Matches Evaluate r env) \<and>
   (Evaluate x env = Some False \<longrightarrow>
    Matches Evaluate (r\<lparr>Conditions := [x, y\<lparr>Condition := And\<rparr>]\<rparr>) env =
      (Some False, [EvalFirst x]))"
proof -
  have "list_all short_circuit (snd (Matches_loop Evaluate env v [EvalFirst c] cs))" for v c cs
    by (rule Matches_loop_calls_needed) (simp add: short_circuit_def)
  then have all: "list_all short_circuit (snd (Matches Evaluate r env))"
    by (auto simp: Matches_def short_circuit_def split: list.splits option.splits)
  have 1: "Condition c \<noteq> And" if "EvalJoined False c \<in> set (snd (Matches Evaluate r env))" for c
    using all that by (auto simp: list_all_iff short_circuit_def)
  have 2: "Condition c \<noteq> Or" if "EvalJoined True c \<in> set (snd (Matches Evaluate r env))" for c
    using all that by (auto simp: list_all_iff short_circuit_def)
  have 3: "Matches Evaluate' r env = Matches Evaluate r env"
    if same: "\<forall>call \<in> set (snd (Matches Evaluate r env)).
       Evaluate' (called call) env = Evaluate (called call) env"
  proof (cases "Conditions r")
    case Nil
    then show ?thesis by (simp add: Matches_def)
  next
    case (Cons c cs)
    have "EvalFirst c \<in> set (snd (Matches Evaluate r env))"
      using Cons Matches_loop_calls_subset [of "[EvalFirst c]" Evaluate env _ cs]
      by (auto simp: Matches_def split: option.splits)
    with same have first: "Evaluate' c env = Evaluate c env" by fastforce
    show ?thesis
    proof (cases "Evaluate c env")
      case None
      with Cons first show ?thesis by (simp add: Matches_def)
    next
      case (Some v)
      with Cons same
      have "Matches_loop Evaluate' env v [EvalFirst c] cs =
            Matches_loop Evaluate env v [EvalFirst c] cs"
        by (intro Matches_loop_independent) (simp add: Matches_def)
      with Cons first Some show ?thesis by (simp add: Matches_def)
    qed
  qed
  have 4: "Matches Evaluate (r\<lparr>Conditions := [x, y\<lparr>Condition := And\<rparr>]\<rparr>) env =
      (Some False, [EvalFirst x])" if "Evaluate x env = Some False"
    using that by (simp add: Matches_def)
  from 1 2 3 4 show ?thesis by blast
qed

theorem Matches_short_circuit_witness:
  "Matches (\<lambda>c e. if A c = StringValue ''arg[99]'' then None else Some (B c = e))
     \<lparr>RuleCommand = ''foo:bar'',
      Conditions =
        [\<lparr>A = StringValue ''x'', B = BoolValue False, Operator = Equals, Modifier = CollOne,
          Condition = Undefined\<rparr>,
         \<lparr>A = StringValue ''arg[99]'', B = IntValue 1, Operator = Equals, Modifier = CollOne,
          Condition = And\<rparr>],
      Permissions = []\<rparr>
     (BoolValue True) =
   (Some False,
    [EvalFirst \<lparr>A = StringValue ''x'', B = BoolValue False, Operator = Equals, Modifier = CollOne,
       Condition = Undefined\<rparr>])"
  using Matches_short_circuit
    [where Evaluate = "\<lambda>c e. if A c = StringValue ''arg[99]'' then None else Some (B c = e)"
       and r = "\<lparr>RuleCommand = ''foo:bar'', Conditions = [], Permissions = []\<rparr>"
       and env = "BoolValue True"
       and x = "\<lparr>A = StringValue ''x'', B = BoolValue False, Operator = Equals,
                 Modifier = CollOne, Condition = Undefined\<rparr>"
       and y = "\<lparr>A = StringValue ''arg[99]'', B = IntValue 1, Operator = Equals,
                 Modifier = CollOne, Condition = Undefined\<rparr>"]
  by simp

text \<open>
  Claim C10.  In \<open>Rule.Matches\<close> and in \<open>Rule.Allowed\<close>, an element after the first whose
  join is neither \<open>And\<close> nor \<open>Or\<close> is skipped: the result, and the calls of \<open>Evaluate\<close>
  made, are those of the rule without these elements.
\<close>

theorem undefined_join_skipped:
  "Matches Evaluate (r\<lparr>Conditions := c # cs\<rparr>) env =
     Matches Evaluate (r\<lparr>Conditions := c # filter (\<lambda>c. joined (Condition c)) cs\<rparr>) env \<and>
   Allowed (r\<lparr>Permissions := p # ps\<rparr>) permissions =
     Allowed (r\<lparr>Permissions := p # filter (\<lambda>p. joined (PermCondition p)) ps\<rparr>) permissions"
  by (simp add: Matches_def Allowed_def Matches_loop_skip Allowed_loop_skip split: option.splits)


section \<open>Properties of command parsing\<close>

lemma split_colon_nonempty: "split_colon s \<noteq> []"
  by (induction s) (auto split: list.splits)

lemma split_colon_length:
  "length (split_colon s) = Suc (length (filter (\<lambda>ch. ch = CHR '':'') s))"
  by (induction s) (auto split: list.splits simp: split_colon_nonempty)

lemma split_colon_single: "split_colon s = [piece] \<Longrightarrow> CHR '':'' \<notin> set s"
  using split_colon_length [of s] by (auto simp: filter_empty_conv)

lemma split_colon_last:
  "(last (split_colon s) = []) = (s = [] \<or> last s = CHR '':'')"
proof (induction s)
  case Nil
  then show ?case by simp
next
  case (Cons ch s)
  show ?case
  proof (cases "split_colon s")
    case Nil
    then show ?thesis by (simp add: split_colon_nonempty)
  next
    case (Cons piece pieces)
    show ?thesis
    proof (cases pieces)
      case Nil
      with Cons have "CHR '':'' \<notin> set s" by (simp add: split_colon_single)
      then have "s \<noteq> [] \<Longrightarrow> last s \<noteq> CHR '':''" by (metis last_in_set)
      with Cons Nil Cons.IH show ?thesis by auto
    next
      case (Cons piece' pieces')
      with \<open>split_colon s = piece # pieces\<close> Cons.IH show ?thesis by auto
    qed
  qed
qed

lemma SplitCommand_command:
  "SplitCommand name = Inr (bundle, command) \<Longrightarrow> command = last (split_colon name)"
  by (auto simp: SplitCommand_def split: list.splits)

lemma SplitCommand_succeeds:
  "(\<exists>bundle command. SplitCommand name = Inr (bundle, command)) =
   (length (filter (\<lambda>ch. ch = CHR '':'') name) \<le> 1)"
proof -
  have "length (split_colon name) = Suc (length (filter (\<lambda>ch. ch = CHR '':'') name))"
    by (rule split_colon_length)
  then show ?thesis
    by (cases "split_colon name" rule: list.exhaust)
       (auto simp: SplitCommand_def split: list.splits)
qed

lemma Parse_loop_keeps_names:
  "Parse_loop infer po cmd lastOption tokens = Inr cmd' \<Longrightarrow>
   Bundle cmd' = Bundle cmd \<and> Command cmd' = Command cmd"
proof (induction infer po cmd lastOption tokens rule: Parse_loop.induct)
  case (1 infer po cmd lastOption)
  then show ?case by simp
next
  case (2 infer po cmd lastOption t tokens)
  show ?case
  proof (cases "t = ''--''")
    case True
    with 2(5) show ?thesis by (auto split: sum.splits)
  next
    case nd: False
    show ?thesis
    proof (cases "length t \<ge> 2 \<and> dashCount t = 2")
      case True
      with nd 2(1) 2(5) show ?thesis by (simp add: Let_def)
    next
      case n2: False
      show ?thesis
      proof (cases "length t \<ge> 1 \<and> dashCount t = 1")
        case True
        show ?thesis
        proof (cases "agnosticDashes po")
          case ag: True
          with nd n2 True 2(2) 2(5) show ?thesis by (simp add: Let_def)
        next
          case ag: False
          obtain opts lo where so: "short_options po (drop 1 t) (Options cmd, lastOption) = (opts, lo)"
            by (cases "short_options po (drop 1 t) (Options cmd, lastOption)")
          with nd n2 True ag 2(3) [OF nd n2 True ag so [symmetric]] 2(5) show ?thesis by simp
        qed
      next
        case n1: False
        show ?thesis
        proof (cases lastOption)
          case None
          with nd n2 n1 2(5) show ?thesis by (auto split: sum.splits)
        next
          case (Some opt)
          with nd n2 n1 2(4) 2(5) show ?thesis
            by (auto split: sum.splits if_splits option.splits)
        qed
      qed
    qed
  qed
qed


text \<open>
  \<open>Parse\<close> succeeds on the single empty token, with an empty command; \<open>SplitCommand\<close>
  succeeds with an empty command on the empty name and on \<open>foo:\<close>.
\<close>

theorem Parse_empty_command_counterexample:
  "Parse (Infer (\<lambda>re. True)) [[]] [] =
     Inr \<lparr>Bundle = [], Command = [], Options = Map.empty, Parameters = []\<rparr> \<and>
   SplitCommand [] = Inr ([], []) \<and>
   SplitCommand ''foo:'' = Inr (''foo'', [])"
  by (simp add: Parse_def SplitCommand_def default_parseOptions_def)

text \<open>
  Claim C5, as amended.  When \<open>Parse\<close> succeeds, the bundle and the command of the result
  are the two components \<open>SplitCommand\<close> gives for the first token, which has at most one
  colon; the command is non-empty exactly when the first token is non-empty and does not
  end in a colon.  The bundle may be empty.
\<close>

theorem Parse_command_field:
  assumes "Parse infer tokens options = Inr cmd"
  shows "tokens \<noteq> [] \<and>
         SplitCommand (hd tokens) = Inr (Bundle cmd, Command cmd) \<and>
         (Command cmd \<noteq> []) = (hd tokens \<noteq> [] \<and> last (hd tokens) \<noteq> CHR '':'') \<and>
         length (filter (\<lambda>ch. ch = CHR '':'') (hd tokens)) \<le> 1"
proof -
  from assms obtain t0 rest where tokens: "tokens = t0 # rest"
    by (cases tokens) (auto simp: Parse_def)
  from assms tokens obtain bundleName commandName where
    split: "SplitCommand t0 = Inr (bundleName, commandName)"
    by (auto simp: Parse_def Let_def split: sum.splits)
  from assms tokens split have "Bundle cmd = bundleName \<and> Command cmd = commandName"
    by (auto simp: Parse_def Let_def dest: Parse_loop_keeps_names)
  with split have names: "SplitCommand t0 = Inr (Bundle cmd, Command cmd)" by simp
  then have "Command cmd = last (split_colon t0)" by (rule SplitCommand_command)
  then have "(Command cmd \<noteq> []) = (t0 \<noteq> [] \<and> last t0 \<noteq> CHR '':'')"
    using split_colon_last [of t0] by auto
  moreover have "length (filter (\<lambda>ch. ch = CHR '':'') t0) \<le> 1"
    using names SplitCommand_succeeds [of t0] by blast
  ultimately show ?thesis using tokens names by simp
qed

theorem Parse_command_field_witness:
  "Parse (Infer (\<lambda>re. True)) [''foo:bar'', ''-v''] [] =
     Inr \<lparr>Bundle = ''foo'', Command = ''bar'',
          Options = [''v'' \<mapsto> \<lparr>Name = ''v'', Value = BoolValue True\<rparr>], Parameters = []\<rparr> \<and>
   SplitCommand ''foo:bar'' = Inr (''foo'', ''bar'')"
proof -
  have p: "Parse (Infer (\<lambda>re. True)) [''foo:bar'', ''-v''] [] =
     Inr \<lparr>Bundle = ''foo'', Command = ''bar'',
          Options = [''v'' \<mapsto> \<lparr>Name = ''v'', Value = BoolValue True\<rparr>], Parameters = []\<rparr>"
    by (simp add: Parse_def SplitCommand_def default_parseOptions_def buildOption_def Let_def)
  from Parse_command_field [OF p] p show ?thesis by simp
qed

lemma Parse_scenario_run:
  "Parse (Infer compiles) [''foo:bar'', ''-abc'', ''--flag=42'', ''--'', ''raw'', ''value''] [] =
     Inr \<lparr>Bundle = ''foo'', Command = ''bar'',
          Options =
            [''a'' \<mapsto> \<lparr>Name = ''a'', Value = BoolValue True\<rparr>,
             ''b'' \<mapsto> \<lparr>Name = ''b'', Value = BoolValue True\<rparr>,
             ''c'' \<mapsto> \<lparr>Name = ''c'', Value = BoolValue True\<rparr>,
             ''flag=42'' \<mapsto> \<lparr>Name = ''flag=42'', Value = BoolValue True\<rparr>],
          Parameters = [StringValue ''raw'', StringValue ''value'']\<rparr>"
  by (simp add: Parse_def SplitCommand_def default_parseOptions_def buildOption_def Let_def
        Infer_def enclosed_def is_int_lexeme_def is_float_lexeme_def strip_minus_def all_digits_def
        is_digit_def is_fraction_def lower_def strip_sign_def)

text \<open>
  Claim C1, as amended.  The tokens of \<open>foo:bar -abc --flag=42 -- raw value\<close>, parsed with
  the default options, give bundle \<open>foo\<close>, command \<open>bar\<close>, the parameters \<open>raw\<close> and
  \<open>value\<close> as strings, and four options, each \<open>Bool(true)\<close>: \<open>a\<close>, \<open>b\<close>, \<open>c\<close> and one
  named \<open>flag=42\<close>.  \<open>Parse\<close> does not split a long option at \<open>=\<close>.
\<close>

theorem Parse_scenario:
  "Parse (Infer compiles) [''foo:bar'', ''-abc'', ''--flag=42'', ''--'', ''raw'', ''value''] [] =
     Inr \<lparr>Bundle = ''foo'', Command = ''bar'',
          Options =
            [''a'' \<mapsto> \<lparr>Name = ''a'', Value = BoolValue True\<rparr>,
             ''b'' \<mapsto> \<lparr>Name = ''b'', Value = BoolValue True\<rparr>,
             ''c'' \<mapsto> \<lparr>Name = ''c'', Value = BoolValue True\<rparr>,
             ''flag=42'' \<mapsto> \<lparr>Name = ''flag=42'', Value = BoolValue True\<rparr>],
          Parameters = [StringValue ''raw'', StringValue ''value'']\<rparr>"
  by (rule Parse_scenario_run)

text \<open>
  The command the claim expects, with an option \<open>flag\<close> of value \<open>Int(42)\<close>, is not what
  \<open>Parse\<close> returns.
\<close>

theorem Parse_scenario_counterexample:
  "Parse (Infer (\<lambda>re. True)) [''foo:bar'', ''-abc'', ''--flag=42'', ''--'', ''raw'', ''value''] [] \<noteq>
     Inr \<lparr>Bundle = ''foo'', Command = ''bar'',
          Options =
            [''a'' \<mapsto> \<lparr>Name = ''a'', Value = BoolValue True\<rparr>,
             ''b'' \<mapsto> \<lparr>Name = ''b'', Value = BoolValue True\<rparr>,
             ''c'' \<mapsto> \<lparr>Name = ''c'', Value = BoolValue True\<rparr>,
             ''flag'' \<mapsto> \<lparr>Name = ''flag'', Value = IntValue 42\<rparr>],
          Parameters = [StringValue ''raw'', StringValue ''value'']\<rparr>"
proof
  let ?claimed = "[''a'' \<mapsto> \<lparr>Name = ''a'', Value = BoolValue True\<rparr>,
             ''b'' \<mapsto> \<lparr>Name = ''b'', Value = BoolValue True\<rparr>,
             ''c'' \<mapsto> \<lparr>Name = ''c'', Value = BoolValue True\<rparr>,
             ''flag'' \<mapsto> \<lparr>Name = ''flag'', Value = IntValue 42\<rparr>]"
  let ?built = "[''a'' \<mapsto> \<lparr>Name = ''a'', Value = BoolValue True\<rparr>,
             ''b'' \<mapsto> \<lparr>Name = ''b'', Value = BoolValue True\<rparr>,
             ''c'' \<mapsto> \<lparr>Name = ''c'', Value = BoolValue True\<rparr>,
             ''flag=42'' \<mapsto> \<lparr>Name = ''flag=42'', Value = BoolValue True\<rparr>]"
  assume "Parse (Infer (\<lambda>re. True)) [''foo:bar'', ''-abc'', ''--flag=42'', ''--'', ''raw'', ''value''] [] =
     Inr \<lparr>Bundle = ''foo'', Command = ''bar'', Options = ?claimed,
          Parameters = [StringValue ''raw'', StringValue ''value'']\<rparr>"
  then have "?built = ?claimed"
    by (simp add: Parse_scenario_run)
  then have "?built ''flag'' = ?claimed ''flag''" by (rule arg_cong)
  then show False by simp
qed

text \<open>
  Claim C9.  \<open>CommandParameters.String\<close> writes the first parameter, and then every
  parameter from the first again, each after a space: the first parameter appears twice,
  and the parameters \<open>raw\<close>, \<open>value\<close> are printed as \<open>raw raw value\<close>, which does not
  read back as the same two parameters.
\<close>

theorem CommandParameters_String_repeats_first:
  "CommandParameters_String sprint (c0 # cs) =
     sprint c0 @ '' '' @ sprint c0 @ concat (map (\<lambda>ci. CHR '' '' # sprint ci) cs) \<and>
   CommandParameters_String (\<lambda>v. case v of StringValue s \<Rightarrow> s | _ \<Rightarrow> ''?'')
     [StringValue ''raw'', StringValue ''value''] = ''raw raw value''"
  by (simp add: CommandParameters_String_def)


section \<open>Properties of the role operations\<close>

lemma elems_append_slice:
  "append_slice h next s v = (h', next', s') \<Longrightarrow> elems h' s' = elems h s @ [v]"
  by (auto simp: append_slice_def elems_def split: if_splits)

lemma elems_sort_slice:
  "elems (sort_slice key h s) s = sort_key key (elems h s)"
proof (rule nth_equalityI)
  show "length (elems (sort_slice key h s) s) = length (sort_key key (elems h s))"
    by (simp add: elems_def)
next
  fix i
  assume "i < length (elems (sort_slice key h s) s)"
  then show "elems (sort_slice key h s) s ! i = sort_key key (elems h s) ! i"
    by (simp add: elems_def sort_slice_def)
qed

lemma sort_slice_other: "a \<noteq> ptr s \<Longrightarrow> sort_slice key h s a = h a"
  by (simp add: sort_slice_def)

lemma stored_permissions_grant:
  assumes "roles da rolename = Some role"
  shows "fst (RoleGrantPermission da rolename bundle permission) = None \<and>
         stored_permissions (snd (RoleGrantPermission da rolename bundle permission)) rolename =
           Some (elems (permArrays da) (RolePermissions role) @
                 [\<lparr>BundleName = bundle, Permission = permission\<rparr>])"
proof -
  obtain h nxt perms where
    a: "append_slice (permArrays da) (nextAddr da) (RolePermissions role)
          \<lparr>BundleName = bundle, Permission = permission\<rparr> = (h, nxt, perms)"
    by (metis prod_cases3)
  from elems_append_slice [OF a] assms a show ?thesis
    by (simp add: RoleGrantPermission_def stored_permissions_def)
qed


lemma elems_slice_set:
  "slice_set h s i v = Some h' \<Longrightarrow> elems h' s = (elems h s)[i := v]"
  by (auto simp: slice_set_def elems_def split: if_splits intro!: nth_equalityI)

lemma RolePermissionExists_result:
  assumes "roles da rolename = Some role" and "rolename \<noteq> []"
  shows "fst (RolePermissionExists da rolename bundlename permission) =
         Inr (\<exists>p \<in> set (elems (permArrays da) (RolePermissions role)).
                BundleName p = bundlename \<and> Permission p = permission)"
  using assms
  by (simp add: RolePermissionExists_def RolePermissionList_def RoleGet_def Let_def
        elems_sort_slice list_ex_iff)

lemma RolePermissionExists_empty_name:
  "fst (RolePermissionExists da [] bundlename permission) = Inl ErrEmptyRoleName"
  by (simp add: RolePermissionExists_def RolePermissionList_def RoleGet_def)

lemma roles_after_grant:
  "roles da rolename = Some role \<Longrightarrow>
   \<exists>role'. roles (snd (RoleGrantPermission da rolename bundle permission)) rolename = Some role'"
  by (simp add: RoleGrantPermission_def split: prod.splits)

text \<open>
  On a new role, one grant leaves one stored permission and the same grant again leaves
  two.
\<close>

theorem RoleGrantPermission_twice_counterexample:
  "stored_permissions
     (snd (RoleGrantPermission (snd (RoleCreate empty_store ''r'')) ''r'' ''b'' ''p'')) ''r'' =
     Some [\<lparr>BundleName = ''b'', Permission = ''p''\<rparr>] \<and>
   stored_permissions
     (snd (RoleGrantPermission
        (snd (RoleGrantPermission (snd (RoleCreate empty_store ''r'')) ''r'' ''b'' ''p''))
        ''r'' ''b'' ''p'')) ''r'' =
     Some [\<lparr>BundleName = ''b'', Permission = ''p''\<rparr>, \<lparr>BundleName = ''b'', Permission = ''p''\<rparr>]"
  by (simp add: stored_permissions_def RoleGrantPermission_def append_slice_def growcap_def
        RoleCreate_def empty_store_def nil_slice_def elems_def upt_rec)

text \<open>
  Claim C6, as amended.  A role's permissions are a list that keeps duplicates:
  \<open>RoleGrantPermission\<close> on an existing role appends the pair to the stored list, so
  after two grants of a pair the list holds it twice, one element more than after one
  grant.  The pairs held are the same as after one grant: \<open>RolePermissionExists\<close> answers
  alike for every pair.
\<close>

theorem RoleGrantPermission_twice:
  assumes "roles da rolename = Some role"
  shows
    "stored_permissions (snd (RoleGrantPermission da rolename bundle permission)) rolename =
       Some (elems (permArrays da) (RolePermissions role) @
             [\<lparr>BundleName = bundle, Permission = permission\<rparr>]) \<and>
     stored_permissions
       (snd (RoleGrantPermission (snd (RoleGrantPermission da rolename bundle permission))
               rolename bundle permission)) rolename =
       Some (elems (permArrays da) (RolePermissions role) @
             [\<lparr>BundleName = bundle, Permission = permission\<rparr>,
              \<lparr>BundleName = bundle, Permission = permission\<rparr>]) \<and>
     (\<forall>b p.
        fst (RolePermissionExists
               (snd (RoleGrantPermission (snd (RoleGrantPermission da rolename bundle permission))
                       rolename bundle permission)) rolename b p) =
        fst (RolePermissionExists (snd (RoleGrantPermission da rolename bundle permission))
               rolename b p))"
proof -
  let ?once = "snd (RoleGrantPermission da rolename bundle permission)"
  let ?twice = "snd (RoleGrantPermission ?once rolename bundle permission)"
  let ?p = "\<lparr>BundleName = bundle, Permission = permission\<rparr>"
  let ?before = "elems (permArrays da) (RolePermissions role)"
  have once: "stored_permissions ?once rolename = Some (?before @ [?p])"
    using stored_permissions_grant [OF assms] by simp
  obtain role1 where r1: "roles ?once rolename = Some role1"
    using roles_after_grant [OF assms] by blast
  with once have e1: "elems (permArrays ?once) (RolePermissions role1) = ?before @ [?p]"
    by (simp add: stored_permissions_def)
  have twice: "stored_permissions ?twice rolename = Some (?before @ [?p, ?p])"
    using stored_permissions_grant [OF r1, of "bundle" "permission"] e1 by simp
  obtain role2 where r2: "roles ?twice rolename = Some role2"
    using roles_after_grant [OF r1] by blast
  with twice have e2: "elems (permArrays ?twice) (RolePermissions role2) = ?before @ [?p, ?p]"
    by (simp add: stored_permissions_def)
  have "fst (RolePermissionExists ?twice rolename b p) =
        fst (RolePermissionExists ?once rolename b p)" for b p
  proof (cases "rolename = []")
    case True
    then show ?thesis by (simp add: RolePermissionExists_empty_name)
  next
    case False
    then show ?thesis
      using RolePermissionExists_result [OF r1 False] RolePermissionExists_result [OF r2 False] e1 e2
      by auto
  qed
  with once twice show ?thesis by blast
qed

theorem RoleGrantPermission_twice_witness:
  "stored_permissions
     (snd (RoleGrantPermission
        (snd (RoleGrantPermission (snd (RoleCreate empty_store ''ops'')) ''ops'' ''ec2'' ''destroy''))
        ''ops'' ''ec2'' ''destroy'')) ''ops'' =
     Some [\<lparr>BundleName = ''ec2'', Permission = ''destroy''\<rparr>,
           \<lparr>BundleName = ''ec2'', Permission = ''destroy''\<rparr>]"
proof -
  have r: "roles (snd (RoleCreate empty_store ''ops'')) ''ops'' =
           Some \<lparr>RoleName = ''ops'', RolePermissions = nil_slice, Groups = nil_slice\<rparr>"
    by (simp add: RoleCreate_def empty_store_def)
  show ?thesis
    using RoleGrantPermission_twice [OF r, of "''ec2''" "''destroy''"]
    by (simp add: elems_def nil_slice_def)
qed

text \<open>
  Claim C4.  \<open>RoleGrantPermission\<close> does not test the role name for emptiness: in a store
  with no role of the empty name (and \<open>RoleCreate\<close> makes none) it answers the empty name
  with \<open>ErrNoSuchRole\<close>, where \<open>RoleCreate\<close>, \<open>RoleDelete\<close>, \<open>RoleExists\<close> and \<open>RoleGet\<close>
  answer it with \<open>ErrEmptyRoleName\<close>.
\<close>

theorem RoleGrantPermission_no_empty_check:
  assumes "roles da [] = None"
  shows "RoleGrantPermission da [] bundle permission = (Some ErrNoSuchRole, da) \<and>
         fst (RoleCreate da []) = Some ErrEmptyRoleName \<and>
         fst (RoleDelete da []) = Some ErrEmptyRoleName \<and>
         RoleExists da [] = Inl ErrEmptyRoleName \<and>
         RoleGet da [] = Inl ErrEmptyRoleName"
  using assms
  by (simp add: RoleGrantPermission_def RoleCreate_def RoleDelete_def RoleExists_def RoleGet_def)

theorem RoleGrantPermission_no_empty_check_witness:
  "RoleGrantPermission empty_store [] ''b'' ''p'' = (Some ErrNoSuchRole, empty_store)"
proof -
  have "roles empty_store [] = None" by (simp add: empty_store_def)
  from RoleGrantPermission_no_empty_check [OF this, of "''b''" "''p''"] show ?thesis by simp
qed


text \<open>
  A role granted \<open>b:y\<close> and then \<open>a:x\<close> stores them in that order; after
  \<open>RolePermissionList\<close> it stores them in the other order, and a write to the first
  element of the returned list is a write to the stored one.
\<close>

theorem role_lists_alias_counterexample:
  "stored_permissions
     (snd (RoleGrantPermission
        (snd (RoleGrantPermission (snd (RoleCreate empty_store ''r'')) ''r'' ''b'' ''y''))
        ''r'' ''a'' ''x'')) ''r'' =
     Some [\<lparr>BundleName = ''b'', Permission = ''y''\<rparr>, \<lparr>BundleName = ''a'', Permission = ''x''\<rparr>] \<and>
   stored_permissions
     (snd (RolePermissionList
        (snd (RoleGrantPermission
           (snd (RoleGrantPermission (snd (RoleCreate empty_store ''r'')) ''r'' ''b'' ''y''))
           ''r'' ''a'' ''x'')) ''r'')) ''r'' =
     Some [\<lparr>BundleName = ''a'', Permission = ''x''\<rparr>, \<lparr>BundleName = ''b'', Permission = ''y''\<rparr>] \<and>
   (case RolePermissionList
        (snd (RoleGrantPermission
           (snd (RoleGrantPermission (snd (RoleCreate empty_store ''r'')) ''r'' ''b'' ''y''))
           ''r'' ''a'' ''x'')) ''r'' of
      (Inr perms, da) \<Rightarrow>
        (case slice_set (permArrays da) perms 0 \<lparr>BundleName = ''z'', Permission = ''w''\<rparr> of
           Some h \<Rightarrow>
             stored_permissions (da\<lparr>permArrays := h\<rparr>) ''r'' =
               Some [\<lparr>BundleName = ''z'', Permission = ''w''\<rparr>,
                     \<lparr>BundleName = ''b'', Permission = ''y''\<rparr>]
         | None \<Rightarrow> False)
    | (Inl err, da) \<Rightarrow> False)"
  by code_simp


lemma RolePermissionList_result:
  assumes "roles da rolename = Some role" and "rolename \<noteq> []"
  shows "RolePermissionList da rolename =
           (Inr (RolePermissions role),
            da\<lparr>permArrays :=
                 sort_slice RolePermission_String (permArrays da) (RolePermissions role)\<rparr>)"
  using assms by (simp add: RolePermissionList_def RoleGet_def Let_def)

text \<open>
  Claim C3, as amended.  For an existing role of non-empty name, \<open>RoleGroupList\<close> leaves
  the store as it is, and \<open>RolePermissionList\<close> changes nothing in it but the array of the
  role's permissions, which it sorts in place: the role then stores the same permissions
  (as a multiset) in key order.  Both return the stored slice itself, not a copy: a write
  to an element of the returned list is a write to the role's stored list.
\<close>

theorem role_lists_share_storage:
  assumes "roles da rolename = Some role" and "rolename \<noteq> []"
  shows
    "fst (RolePermissionList da rolename) = Inr (RolePermissions role) \<and>
     snd (RolePermissionList da rolename) =
       da\<lparr>permArrays := permArrays (snd (RolePermissionList da rolename))\<rparr> \<and>
     (\<forall>a. a \<noteq> ptr (RolePermissions role) \<longrightarrow>
          permArrays (snd (RolePermissionList da rolename)) a = permArrays da a) \<and>
     (\<exists>after.
        stored_permissions (snd (RolePermissionList da rolename)) rolename = Some after \<and>
        mset after = mset (elems (permArrays da) (RolePermissions role)) \<and>
        sorted (map RolePermission_String after)) \<and>
     (\<forall>i v h.
        slice_set (permArrays (snd (RolePermissionList da rolename))) (RolePermissions role) i v =
          Some h \<longrightarrow>
        stored_permissions (snd (RolePermissionList da rolename)\<lparr>permArrays := h\<rparr>) rolename =
          map_option (\<lambda>after. after[i := v])
            (stored_permissions (snd (RolePermissionList da rolename)) rolename)) \<and>
     RoleGroupList da rolename = (Inr (Groups role), da) \<and>
     (\<forall>i v h.
        slice_set (groupArrays da) (Groups role) i v = Some h \<longrightarrow>
        stored_groups (da\<lparr>groupArrays := h\<rparr>) rolename =
          map_option (\<lambda>groups. groups[i := v]) (stored_groups da rolename))"
proof -
  let ?perms = "RolePermissions role"
  let ?da' = "da\<lparr>permArrays := sort_slice RolePermission_String (permArrays da) ?perms\<rparr>"
  have run: "RolePermissionList da rolename = (Inr ?perms, ?da')"
    using assms by (rule RolePermissionList_result)
  have 1: "fst (RolePermissionList da rolename) = Inr ?perms"
    by (simp add: run)
  have 2: "snd (RolePermissionList da rolename) =
       da\<lparr>permArrays := permArrays (snd (RolePermissionList da rolename))\<rparr>"
    by (simp add: run)
  have 3: "permArrays (snd (RolePermissionList da rolename)) a = permArrays da a"
    if "a \<noteq> ptr ?perms" for a
    using that by (simp add: run sort_slice_other)
  have after: "stored_permissions (snd (RolePermissionList da rolename)) rolename =
      Some (sort_key RolePermission_String (elems (permArrays da) ?perms))"
    using assms(1) by (simp add: run stored_permissions_def elems_sort_slice)
  have 4: "\<exists>after.
        stored_permissions (snd (RolePermissionList da rolename)) rolename = Some after \<and>
        mset after = mset (elems (permArrays da) ?perms) \<and>
        sorted (map RolePermission_String after)"
    using after by simp
  have 5: "stored_permissions (snd (RolePermissionList da rolename)\<lparr>permArrays := h\<rparr>) rolename =
          map_option (\<lambda>after. after[i := v])
            (stored_permissions (snd (RolePermissionList da rolename)) rolename)"
    if "slice_set (permArrays (snd (RolePermissionList da rolename))) ?perms i v = Some h"
    for i v h
    using elems_slice_set [OF that] assms(1) by (simp add: run stored_permissions_def)
  have 6: "RoleGroupList da rolename = (Inr (Groups role), da)"
    using assms(1) by (simp add: RoleGroupList_def)
  have 7: "stored_groups (da\<lparr>groupArrays := h\<rparr>) rolename =
          map_option (\<lambda>groups. groups[i := v]) (stored_groups da rolename)"
    if "slice_set (groupArrays da) (Groups role) i v = Some h" for i v h
    using elems_slice_set [OF that] assms(1) by (simp add: stored_groups_def)
  from 1 2 3 4 5 6 7 show ?thesis by blast
qed

theorem role_lists_share_storage_witness:
  "fst (RolePermissionList
          (snd (RoleGrantPermission
             (snd (RoleGrantPermission (snd (RoleCreate empty_store ''r'')) ''r'' ''b'' ''y''))
             ''r'' ''a'' ''x'')) ''r'') =
     Inr \<lparr>ptr = 2, len = 2, cap = 2\<rparr> \<and>
   fst (RoleGroupList
          (snd (RoleGrantPermission
             (snd (RoleGrantPermission (snd (RoleCreate empty_store ''r'')) ''r'' ''b'' ''y''))
             ''r'' ''a'' ''x'')) ''r'') =
     Inr nil_slice"
proof -
  have r: "roles
          (snd (RoleGrantPermission
             (snd (RoleGrantPermission (snd (RoleCreate empty_store ''r'')) ''r'' ''b'' ''y''))
             ''r'' ''a'' ''x'')) ''r'' =
        Some \<lparr>RoleName = ''r'', RolePermissions = \<lparr>ptr = 2, len = 2, cap = 2\<rparr>,
              Groups = nil_slice\<rparr>"
    by (simp add: RoleGrantPermission_def append_slice_def growcap_def RoleCreate_def
          empty_store_def nil_slice_def)
  have n: "''r'' \<noteq> []" by simp
  from role_lists_share_storage [OF r n] show ?thesis by simp
qed


section \<open>Properties of the token operations\<close>

lemma maps_agreeD1:
  "maps_agree da \<Longrightarrow> tokensByUser da u = Some token \<Longrightarrow>
   User token = u \<and> tokensByValue da (Token token) = Some token"
  by (simp add: maps_agree_def)

lemma maps_agreeD2:
  "maps_agree da \<Longrightarrow> tokensByValue da v = Some token \<Longrightarrow>
   Token token = v \<and> tokensByUser da (User token) = Some token"
  by (simp add: maps_agree_def)

lemma invalidated_cases:
  assumes "maps_agree da"
  shows "(tokensByUser da username = None \<and> invalidated da username = da) \<or>
         (\<exists>token. tokensByUser da username = Some token \<and> User token = username \<and>
            tokensByValue da (Token token) = Some token \<and>
            invalidated da username =
              da\<lparr>tokensByUser := (tokensByUser da)(username := None),
                 tokensByValue := (tokensByValue da)(Token token := None)\<rparr>)"
proof (cases "tokensByUser da username")
  case None
  then show ?thesis by (simp add: invalidated_def TokenRetrieveByUser_def)
next
  case (Some token)
  with assms have "User token = username \<and> tokensByValue da (Token token) = Some token"
    by (simp add: maps_agreeD1)
  with Some show ?thesis
    by (simp add: invalidated_def TokenRetrieveByUser_def TokenInvalidate_def
          TokenRetrieveByToken_def)
qed

lemma invalidated_facts:
  assumes "maps_agree da"
  shows "maps_agree (invalidated da username)"
    and "tokensByUser (invalidated da username) username = None"
    and "users (invalidated da username) = users da"
    and "tokensByValue (invalidated da username) v = Some token \<Longrightarrow>
         tokensByValue da v = Some token"
proof -
  from invalidated_cases [OF assms, of username]
  show "maps_agree (invalidated da username)"
  proof
    assume "tokensByUser da username = None \<and> invalidated da username = da"
    with assms show ?thesis by simp
  next
    assume "\<exists>token. tokensByUser da username = Some token \<and> User token = username \<and>
            tokensByValue da (Token token) = Some token \<and>
            invalidated da username =
              da\<lparr>tokensByUser := (tokensByUser da)(username := None),
                 tokensByValue := (tokensByValue da)(Token token := None)\<rparr>"
    then obtain token where t: "tokensByUser da username = Some token" "User token = username"
      "tokensByValue da (Token token) = Some token"
      and eq: "invalidated da username =
              da\<lparr>tokensByUser := (tokensByUser da)(username := None),
                 tokensByValue := (tokensByValue da)(Token token := None)\<rparr>" by blast
    show ?thesis
      unfolding eq maps_agree_def
    proof (intro conjI allI impI)
      fix u tok
      assume "tokensByUser (da\<lparr>tokensByUser := (tokensByUser da)(username := None),
                 tokensByValue := (tokensByValue da)(Token token := None)\<rparr>) u = Some tok"
      then have u: "u \<noteq> username" "tokensByUser da u = Some tok" by (auto split: if_splits)
      with assms have a: "User tok = u" "tokensByValue da (Token tok) = Some tok"
        by (auto dest: maps_agreeD1)
      show "User tok = u" by fact
      have "Token tok \<noteq> Token token"
      proof
        assume "Token tok = Token token"
        with a(2) t(3) have "tok = token" by (metis option.inject)
        with a(1) t(2) u(1) show False by blast
      qed
      with a show "tokensByValue (da\<lparr>tokensByUser := (tokensByUser da)(username := None),
                 tokensByValue := (tokensByValue da)(Token token := None)\<rparr>) (Token tok) = Some tok"
        by simp
    next
      fix v tok
      assume "tokensByValue (da\<lparr>tokensByUser := (tokensByUser da)(username := None),
                 tokensByValue := (tokensByValue da)(Token token := None)\<rparr>) v = Some tok"
      then have v: "v \<noteq> Token token" "tokensByValue da v = Some tok" by (auto split: if_splits)
      with assms have a: "Token tok = v" "tokensByUser da (User tok) = Some tok"
        by (auto dest: maps_agreeD2)
      show "Token tok = v" by fact
      have "User tok \<noteq> username"
      proof
        assume "User tok = username"
        with a(2) t(1) have "tok = token" by (metis option.inject)
        with a(1) v(1) show False by blast
      qed
      with a show "tokensByUser (da\<lparr>tokensByUser := (tokensByUser da)(username := None),
                 tokensByValue := (tokensByValue da)(Token token := None)\<rparr>) (User tok) = Some tok"
        by simp
    qed
  qed
  from invalidated_cases [OF assms, of username]
  show "tokensByUser (invalidated da username) username = None" by auto
  from invalidated_cases [OF assms, of username]
  show "users (invalidated da username) = users da" by auto
  from invalidated_cases [OF assms, of username]
  show "tokensByValue (invalidated da username) v = Some token \<Longrightarrow>
         tokensByValue da v = Some token" by (auto split: if_splits)
qed


lemma UserExists_True: "(UserExists da u = Inr True) = (u \<noteq> [] \<and> users da u \<noteq> None)"
  by (simp add: UserExists_def)

lemma no_tokens_for:
  "maps_agree da \<Longrightarrow> tokensByUser da u = None \<Longrightarrow> tokensByValue da v = Some token \<Longrightarrow>
   User token \<noteq> u"
  by (auto dest: maps_agreeD2)

lemma maps_agree_at_most_one: "maps_agree da \<Longrightarrow> at_most_one_token da u"
proof (cases "tokensByUser da u")
  case None
  assume "maps_agree da"
  with None have "tokens_of da u \<subseteq> {undefined}"
    by (auto simp: tokens_of_def dest: no_tokens_for)
  then show ?thesis unfolding at_most_one_token_def by blast
next
  case (Some token)
  assume "maps_agree da"
  with Some have "tokens_of da u \<subseteq> {token}"
    by (auto simp: tokens_of_def dest: maps_agreeD2)
  then show ?thesis unfolding at_most_one_token_def by blast
qed

lemma maps_agree_store:
  assumes agree: "maps_agree d1" and none: "tokensByUser d1 u = None"
    and new: "tokensByValue d1 ts = None" and T: "User T = u" "Token T = ts"
  shows "maps_agree (d1\<lparr>tokensByUser := (tokensByUser d1)(u \<mapsto> T),
                        tokensByValue := (tokensByValue d1)(ts \<mapsto> T)\<rparr>)"
  unfolding maps_agree_def
proof (intro conjI allI impI)
  fix u' tok
  assume a: "tokensByUser (d1\<lparr>tokensByUser := (tokensByUser d1)(u \<mapsto> T),
                        tokensByValue := (tokensByValue d1)(ts \<mapsto> T)\<rparr>) u' = Some tok"
  show "User tok = u'"
    using a T agree by (auto split: if_splits dest: maps_agreeD1)
  show "tokensByValue (d1\<lparr>tokensByUser := (tokensByUser d1)(u \<mapsto> T),
                        tokensByValue := (tokensByValue d1)(ts \<mapsto> T)\<rparr>) (Token tok) = Some tok"
  proof (cases "u' = u")
    case True
    with a T show ?thesis by simp
  next
    case False
    with a have "tokensByUser d1 u' = Some tok" by simp
    with agree have v: "tokensByValue d1 (Token tok) = Some tok" by (simp add: maps_agreeD1)
    with new have "Token tok \<noteq> ts" by auto
    with v show ?thesis by simp
  qed
next
  fix v tok
  assume a: "tokensByValue (d1\<lparr>tokensByUser := (tokensByUser d1)(u \<mapsto> T),
                        tokensByValue := (tokensByValue d1)(ts \<mapsto> T)\<rparr>) v = Some tok"
  show "Token tok = v"
    using a T agree by (auto split: if_splits dest: maps_agreeD2)
  show "tokensByUser (d1\<lparr>tokensByUser := (tokensByUser d1)(u \<mapsto> T),
                        tokensByValue := (tokensByValue d1)(ts \<mapsto> T)\<rparr>) (User tok) = Some tok"
  proof (cases "v = ts")
    case True
    with a T show ?thesis by simp
  next
    case False
    with a have b: "tokensByValue d1 v = Some tok" by simp
    with agree have w: "tokensByUser d1 (User tok) = Some tok" by (simp add: maps_agreeD2)
    with none have "User tok \<noteq> u" by auto
    with w show ?thesis by simp
  qed
qed

lemma TokenGenerate_unfold:
  assumes "UserExists da u = Inr True"
  shows "TokenGenerate da u d rnd now =
     (case rnd of
        Inl err \<Rightarrow> (Inl err, invalidated da u)
      | Inr ts \<Rightarrow>
          (Inr \<lparr>Duration = d, Token = ts, User = u, ValidFrom = now, ValidUntil = now + d\<rparr>,
           invalidated da u
             \<lparr>tokensByUser := (tokensByUser (invalidated da u))(u \<mapsto>
                \<lparr>Duration = d, Token = ts, User = u, ValidFrom = now, ValidUntil = now + d\<rparr>),
              tokensByValue := (tokensByValue (invalidated da u))(ts \<mapsto>
                \<lparr>Duration = d, Token = ts, User = u, ValidFrom = now, ValidUntil = now + d\<rparr>)\<rparr>))"
  using assms by (simp add: TokenGenerate_def invalidated_def Let_def split: sum.splits)

lemma TokenGenerate_step:
  assumes agree: "maps_agree da" and user: "UserExists da u = Inr True"
    and new: "\<And>ts. rnd = Inr ts \<Longrightarrow> tokensByValue da ts = None"
    and run: "TokenGenerate da u d rnd now = (res, da')"
  shows "maps_agree da'"
    and "UserExists da' u = Inr True"
    and "tokensByValue da' v = Some t \<Longrightarrow>
           tokensByValue da v = Some t \<or> (User t = u \<and> rnd = Inr v)"
    and "res = Inr T \<Longrightarrow> rnd = Inr (Token T) \<and> tokensByUser da' u = Some T"
    and "rnd = Inr ts \<Longrightarrow> \<exists>T. res = Inr T"
proof -
  let ?d1 = "invalidated da u"
  note inv = invalidated_facts [OF agree, of u]
  have users1: "UserExists ?d1 u = Inr True"
    using user inv(3) by (simp add: UserExists_True)
  show "maps_agree da'"
  proof (cases rnd)
    case (Inl err)
    with run user inv(1) show ?thesis by (simp add: TokenGenerate_unfold)
  next
    case (Inr ts)
    have "tokensByValue ?d1 ts = None"
      using new [OF Inr] inv(4) [of ts] by (cases "tokensByValue ?d1 ts") auto
    from maps_agree_store [OF inv(1) inv(2) this, of _ ] Inr run user show ?thesis
      by (auto simp: TokenGenerate_unfold)
  qed
  show "UserExists da' u = Inr True"
    using run users1 by (auto simp: TokenGenerate_unfold [OF user] UserExists_True split: sum.splits)
  show "tokensByValue da' v = Some t \<Longrightarrow>
           tokensByValue da v = Some t \<or> (User t = u \<and> rnd = Inr v)"
    using run user inv(4) [of v t]
    by (auto simp: TokenGenerate_unfold split: sum.splits if_splits)
  show "res = Inr T \<Longrightarrow> rnd = Inr (Token T) \<and> tokensByUser da' u = Some T"
    using run user by (auto simp: TokenGenerate_unfold split: sum.splits)
  show "rnd = Inr ts \<Longrightarrow> \<exists>T. res = Inr T"
    using run user by (auto simp: TokenGenerate_unfold split: sum.splits)
qed


lemma invalidate_steps:
  assumes agree: "maps_agree da"
  shows "last (da # (case TokenRetrieveByUser da u of
                        Inr token \<Rightarrow> TokenInvalidate_steps da (Token token)
                      | Inl err \<Rightarrow> [])) = invalidated da u"
    and "\<forall>s \<in> set (case TokenRetrieveByUser da u of
                        Inr token \<Rightarrow> TokenInvalidate_steps da (Token token)
                      | Inl err \<Rightarrow> []). at_most_one_token s u"
proof -
  let ?inv = "case TokenRetrieveByUser da u of
                Inr token \<Rightarrow> TokenInvalidate_steps da (Token token)
              | Inl err \<Rightarrow> []"
  show "last (da # ?inv) = invalidated da u"
    using invalidated_cases [OF agree, of u]
    by (auto simp: TokenRetrieveByUser_def TokenInvalidate_steps_def TokenRetrieveByToken_def)
  show "\<forall>s \<in> set ?inv. at_most_one_token s u"
  proof (cases "tokensByUser da u")
    case None
    then show ?thesis by (simp add: TokenRetrieveByUser_def)
  next
    case (Some token)
    with agree have t: "User token = u" "tokensByValue da (Token token) = Some token"
      by (auto dest: maps_agreeD1)
    have inv: "?inv =
        [da\<lparr>tokensByUser := (tokensByUser da)(u := None)\<rparr>, invalidated da u]"
      using Some t invalidated_cases [OF agree, of u]
      by (auto simp: TokenRetrieveByUser_def TokenInvalidate_steps_def TokenRetrieveByToken_def)
    have "tokens_of (da\<lparr>tokensByUser := (tokensByUser da)(u := None)\<rparr>) u \<subseteq> {token}"
      using agree Some by (auto simp: tokens_of_def dest: maps_agreeD2)
    then have "at_most_one_token (da\<lparr>tokensByUser := (tokensByUser da)(u := None)\<rparr>) u"
      unfolding at_most_one_token_def by blast
    moreover have "at_most_one_token (invalidated da u) u"
      using invalidated_facts(1) [OF agree] by (rule maps_agree_at_most_one)
    ultimately show ?thesis by (simp add: inv)
  qed
qed

lemma TokenGenerate_steps_at_most_one:
  assumes agree: "maps_agree da" and user: "UserExists da u = Inr True"
    and new: "\<And>ts. rnd = Inr ts \<Longrightarrow> tokensByValue da ts = None"
  shows "\<forall>s \<in> set (TokenGenerate_steps da u d rnd now). at_most_one_token s u"
proof -
  let ?inv = "case TokenRetrieveByUser da u of
                Inr token \<Rightarrow> TokenInvalidate_steps da (Token token)
              | Inl err \<Rightarrow> []"
  let ?d1 = "invalidated da u"
  note inv = invalidated_facts [OF agree, of u]
  note st = invalidate_steps [OF agree, of u]
  show ?thesis
  proof (cases rnd)
    case (Inl err)
    with user st(2) show ?thesis by (simp add: TokenGenerate_steps_def)
  next
    case (Inr ts)
    let ?T = "\<lparr>Duration = d, Token = ts, User = u, ValidFrom = now, ValidUntil = now + d\<rparr>"
    have steps: "TokenGenerate_steps da u d rnd now =
        ?inv @ [?d1\<lparr>tokensByUser := (tokensByUser ?d1)(u \<mapsto> ?T)\<rparr>,
                ?d1\<lparr>tokensByUser := (tokensByUser ?d1)(u \<mapsto> ?T),
                    tokensByValue := (tokensByValue ?d1)(ts \<mapsto> ?T)\<rparr>]"
      using user Inr st(1) by (simp add: TokenGenerate_steps_def Let_def)
    have "tokens_of (?d1\<lparr>tokensByUser := (tokensByUser ?d1)(u \<mapsto> ?T)\<rparr>) u \<subseteq> {?T}"
      using inv(1) inv(2) by (auto simp: tokens_of_def dest: no_tokens_for)
    then have a: "at_most_one_token (?d1\<lparr>tokensByUser := (tokensByUser ?d1)(u \<mapsto> ?T)\<rparr>) u"
      unfolding at_most_one_token_def by blast
    have "tokensByValue ?d1 ts = None"
      using new [OF Inr] inv(4) [of ts] by (cases "tokensByValue ?d1 ts") auto
    from maps_agree_store [OF inv(1) inv(2) this, of ?T]
    have "maps_agree (?d1\<lparr>tokensByUser := (tokensByUser ?d1)(u \<mapsto> ?T),
                    tokensByValue := (tokensByValue ?d1)(ts \<mapsto> ?T)\<rparr>)" by simp
    then have b: "at_most_one_token (?d1\<lparr>tokensByUser := (tokensByUser ?d1)(u \<mapsto> ?T),
                    tokensByValue := (tokensByValue ?d1)(ts \<mapsto> ?T)\<rparr>) u"
      by (rule maps_agree_at_most_one)
    from st(2) a b show ?thesis by (simp add: steps)
  qed
qed


lemma generated_Cons:
  "generated (c # cs) =
     (case call_random c of Inr ts \<Rightarrow> [ts] | Inl err \<Rightarrow> []) @ generated cs"
  by (simp add: generated_def)

lemma returned_Cons:
  "returned (r # rs) = (case r of Inr token \<Rightarrow> [token] | Inl err \<Rightarrow> []) @ returned rs"
  by (simp add: returned_def)

lemma TokenGenerate_calls_invariant:
  assumes "maps_agree da" and "UserExists da u = Inr True" and "fresh da calls"
    and "TokenGenerate_calls da u calls = (results, steps, da')"
  shows "maps_agree da' \<and>
     (\<forall>v t. tokensByValue da' v = Some t \<longrightarrow>
        tokensByValue da v = Some t \<or> (User t = u \<and> v \<in> set (generated calls))) \<and>
     map Token (returned results) = generated calls \<and>
     (\<forall>s \<in> set steps. at_most_one_token s u) \<and>
     (\<forall>T. results \<noteq> [] \<and> last results = Inr T \<longrightarrow> tokensByUser da' u = Some T)"
  using assms
proof (induction calls arbitrary: da results steps da')
  case Nil
  then show ?case by (simp add: generated_def returned_def)
next
  case (Cons c cs)
  let ?rnd = "call_random c"
  obtain res da1 where run1:
    "TokenGenerate da u (call_duration c) ?rnd (call_now c) = (res, da1)"
    by (cases "TokenGenerate da u (call_duration c) ?rnd (call_now c)")
  obtain rs st where run2: "TokenGenerate_calls da1 u cs = (rs, st, da')"
    and results: "results = res # rs"
    and steps: "steps =
      TokenGenerate_steps da u (call_duration c) ?rnd (call_now c) @ st"
    using Cons.prems(4) run1 by (auto split: prod.splits)
  have new: "tokensByValue da ts = None" if "?rnd = Inr ts" for ts
    using Cons.prems(3) that by (auto simp: fresh_def generated_Cons)
  note step = TokenGenerate_step [OF Cons.prems(1) Cons.prems(2) new run1]
  have dom1: "tokensByValue da v = Some t \<or> (User t = u \<and> ?rnd = Inr v)"
    if "tokensByValue da1 v = Some t" for v t
    using step(3) that by blast
  have fresh1: "fresh da1 cs"
    unfolding fresh_def
  proof (intro conjI)
    show "distinct (generated cs)"
      using Cons.prems(3) by (simp add: fresh_def generated_Cons)
    show "set (generated cs) \<inter> dom (tokensByValue da1) = {}"
    proof (rule ccontr)
      assume "set (generated cs) \<inter> dom (tokensByValue da1) \<noteq> {}"
      then obtain v t where v: "v \<in> set (generated cs)" "tokensByValue da1 v = Some t" by auto
      from dom1 [OF v(2)] show False
      proof
        assume "tokensByValue da v = Some t"
        with v(1) Cons.prems(3) show False by (auto simp: fresh_def generated_Cons)
      next
        assume "User t = u \<and> ?rnd = Inr v"
        with v(1) Cons.prems(3) show False by (auto simp: fresh_def generated_Cons)
      qed
    qed
  qed
  note IH = Cons.IH [OF step(1) step(2) fresh1 run2]
  have 1: "maps_agree da'" using IH by blast
  have 2: "tokensByValue da v = Some t \<or> (User t = u \<and> v \<in> set (generated (c # cs)))"
    if "tokensByValue da' v = Some t" for v t
  proof -
    from IH that have "tokensByValue da1 v = Some t \<or> (User t = u \<and> v \<in> set (generated cs))"
      by blast
    then show ?thesis
    proof
      assume "tokensByValue da1 v = Some t"
      from dom1 [OF this] show ?thesis by (auto simp: generated_Cons)
    next
      assume "User t = u \<and> v \<in> set (generated cs)"
      then show ?thesis by (simp add: generated_Cons)
    qed
  qed
  have 3: "map Token (returned results) = generated (c # cs)"
  proof (cases res)
    case (Inl err)
    have "\<not> (\<exists>ts. ?rnd = Inr ts)" using step(5) Inl by auto
    then have "generated (c # cs) = generated cs"
      by (cases ?rnd) (auto simp: generated_Cons)
    with IH Inl results show ?thesis by (simp add: returned_Cons)
  next
    case (Inr T)
    with step(4) have "?rnd = Inr (Token T)" by blast
    with IH Inr results show ?thesis by (simp add: returned_Cons generated_Cons)
  qed
  have 4: "\<forall>s \<in> set steps. at_most_one_token s u"
    using TokenGenerate_steps_at_most_one [OF Cons.prems(1) Cons.prems(2) new] IH steps
    by auto
  have 5: "tokensByUser da' u = Some T" if "results \<noteq> []" "last results = Inr T" for T
  proof (cases cs)
    case Nil
    with run2 results that step(4) show ?thesis by auto
  next
    case (Cons c' cs')
    with run2 have "rs \<noteq> []" by (auto split: prod.splits)
    with results that IH show ?thesis by auto
  qed
  from 1 2 3 4 5 show ?case by blast
qed


lemma maps_agree_empty_store: "maps_agree empty_store"
  by (simp add: maps_agree_def empty_store_def)

lemma maps_agree_TokenInvalidate:
  assumes "maps_agree da"
  shows "maps_agree (snd (TokenInvalidate da tokenString))"
proof (cases "tokensByValue da tokenString")
  case None
  with assms show ?thesis by (simp add: TokenInvalidate_def TokenRetrieveByToken_def)
next
  case (Some token)
  with assms have "tokensByUser da (User token) = Some token" "Token token = tokenString"
    by (auto dest: maps_agreeD2)
  with Some have "snd (TokenInvalidate da tokenString) = invalidated da (User token)"
    by (simp add: TokenInvalidate_def TokenRetrieveByToken_def invalidated_def
          TokenRetrieveByUser_def)
  with invalidated_facts(1) [OF assms] show ?thesis by simp
qed

lemma returned_append: "returned (rs @ rs') = returned rs @ returned rs'"
  by (simp add: returned_def)

lemma set_returned: "(token \<in> set (returned results)) = (Inr token \<in> set results)"
  by (induction results) (auto simp: returned_Cons returned_def split: sum.splits)

text \<open>
  Claim C2.  Take a store whose two token maps agree (as the empty maps do, and as
  \<open>TokenGenerate\<close> and \<open>TokenInvalidate\<close> keep them), a user that exists, and any
  sequence of \<open>TokenGenerate\<close> calls for that user whose random token strings are
  fresh.  If the latest call returns the token \<open>T\<close>, then \<open>TokenRetrieveByUser\<close> returns
  exactly \<open>T\<close>, and for every token returned by an earlier call of the sequence
  \<open>TokenRetrieveByToken\<close> returns \<open>ErrNoSuchToken\<close> and \<open>TokenEvaluate\<close> returns false.  The
  maps hold exactly \<open>T\<close> for the user at the end, and at most one token for the user
  in every store the calls pass through, statement by statement.
\<close>

theorem TokenGenerate_supersedes:
  assumes "maps_agree da" and "UserExists da username = Inr True" and "fresh da calls"
    and "TokenGenerate_calls da username calls = (results, steps, da')"
    and "results \<noteq> []" and "last results = Inr T"
  shows "TokenRetrieveByUser da' username = Inr T \<and>
     TokenRetrieveByToken da' (Token T) = Inr T \<and>
     (\<forall>T'. Inr T' \<in> set (butlast results) \<longrightarrow>
        TokenRetrieveByToken da' (Token T') = Inl ErrNoSuchToken \<and>
        \<not> TokenEvaluate da' now (Token T')) \<and>
     tokens_of da' username = {T} \<and>
     at_most_one_token da username \<and>
     (\<forall>s \<in> set steps. at_most_one_token s username)"
proof -
  note inv = TokenGenerate_calls_invariant [OF assms(1-4)]
  from inv have agree: "maps_agree da'" by blast
  from inv assms(5,6) have byUser: "tokensByUser da' username = Some T" by blast
  with agree have byValue: "tokensByValue da' (Token T) = Some T" and user: "User T = username"
    by (auto dest: maps_agreeD1)
  have only: "t = T" if "tokensByValue da' v = Some t" "User t = username" for v t
    using maps_agreeD2 [OF agree that(1)] that(2) byUser by simp
  have 1: "TokenRetrieveByUser da' username = Inr T"
    using byUser by (simp add: TokenRetrieveByUser_def)
  have 2: "TokenRetrieveByToken da' (Token T) = Inr T"
    using byValue by (simp add: TokenRetrieveByToken_def)
  have gone: "tokensByValue da' (Token T') = None" if T': "Inr T' \<in> set (butlast results)" for T'
  proof (rule ccontr)
    assume "tokensByValue da' (Token T') \<noteq> None"
    then obtain t where t: "tokensByValue da' (Token T') = Some t" by auto
    have split: "results = butlast results @ [Inr T]"
      using assms(5,6) by (metis append_butlast_last_id)
    have "returned results = returned (butlast results) @ [T]"
      by (subst split) (simp add: returned_append returned_def)
    with inv have gen: "generated calls = map Token (returned (butlast results)) @ [Token T]"
      by simp
    from T' have in_ret: "T' \<in> set (returned (butlast results))" by (simp add: set_returned)
    from assms(3) have "distinct (generated calls)" by (simp add: fresh_def)
    with gen have "distinct (map Token (returned (butlast results)) @ [Token T])" by metis
    then have "Token T \<notin> Token ` set (returned (butlast results))" by simp
    with in_ret have differ: "Token T' \<noteq> Token T" by (metis imageI)
    from gen in_ret have "Token T' \<in> set (generated calls)" by auto
    with assms(3) have "tokensByValue da (Token T') = None" by (auto simp: fresh_def)
    moreover from inv have "tokensByValue da (Token T') = Some t \<or>
        (User t = username \<and> Token T' \<in> set (generated calls))"
      using t by blast
    ultimately have "User t = username" by simp
    from only [OF t this] have "t = T" .
    moreover from maps_agreeD2 [OF agree t] have "Token t = Token T'" by blast
    ultimately show False using differ by metis
  qed
  have 3: "TokenRetrieveByToken da' (Token T') = Inl ErrNoSuchToken \<and>
        \<not> TokenEvaluate da' now (Token T')" if "Inr T' \<in> set (butlast results)" for T'
    using gone [OF that] by (simp add: TokenRetrieveByToken_def TokenEvaluate_def)
  have "tokens_of da' username \<subseteq> {T}"
  proof
    fix x
    assume "x \<in> tokens_of da' username"
    then consider "tokensByUser da' username = Some x"
      | v where "tokensByValue da' v = Some x" "User x = username"
      by (auto simp: tokens_of_def)
    then show "x \<in> {T}"
    proof cases
      case 1
      with byUser show ?thesis by simp
    next
      case 2
      from only [OF 2] show ?thesis by simp
    qed
  qed
  moreover have "T \<in> tokens_of da' username"
    using byUser by (simp add: tokens_of_def)
  ultimately have 4: "tokens_of da' username = {T}" by blast
  have 5: "at_most_one_token da username"
    using assms(1) by (rule maps_agree_at_most_one)
  from inv have 6: "\<forall>s \<in> set steps. at_most_one_token s username" by blast
  from 1 2 3 4 5 6 show ?thesis by blast
qed

theorem TokenGenerate_supersedes_witness:
  "TokenRetrieveByUser
     (snd (snd (TokenGenerate_calls
        (empty_store\<lparr>users := [''alice'' \<mapsto> \<lparr>Username = ''alice'', Email = ''a@b''\<rparr>]\<rparr>) ''alice''
        [\<lparr>call_duration = 3600, call_random = Inr ''T1'', call_now = 0\<rparr>,
         \<lparr>call_duration = 3600, call_random = Inr ''T2'', call_now = 10\<rparr>]))) ''alice'' =
     Inr \<lparr>Duration = 3600, Token = ''T2'', User = ''alice'', ValidFrom = 10, ValidUntil = 3610\<rparr> \<and>
   TokenRetrieveByToken
     (snd (snd (TokenGenerate_calls
        (empty_store\<lparr>users := [''alice'' \<mapsto> \<lparr>Username = ''alice'', Email = ''a@b''\<rparr>]\<rparr>) ''alice''
        [\<lparr>call_duration = 3600, call_random = Inr ''T1'', call_now = 0\<rparr>,
         \<lparr>call_duration = 3600, call_random = Inr ''T2'', call_now = 10\<rparr>]))) ''T1'' =
     Inl ErrNoSuchToken \<and>
   \<not> TokenEvaluate
     (snd (snd (TokenGenerate_calls
        (empty_store\<lparr>users := [''alice'' \<mapsto> \<lparr>Username = ''alice'', Email = ''a@b''\<rparr>]\<rparr>) ''alice''
        [\<lparr>call_duration = 3600, call_random = Inr ''T1'', call_now = 0\<rparr>,
         \<lparr>call_duration = 3600, call_random = Inr ''T2'', call_now = 10\<rparr>]))) 20 ''T1''"
proof -
  let ?da = "empty_store\<lparr>users := [''alice'' \<mapsto> \<lparr>Username = ''alice'', Email = ''a@b''\<rparr>]\<rparr>"
  let ?calls = "[\<lparr>call_duration = 3600, call_random = Inr ''T1'', call_now = 0\<rparr>,
         \<lparr>call_duration = 3600, call_random = Inr ''T2'', call_now = 10\<rparr>]"
  let ?T1 = "\<lparr>Duration = 3600, Token = ''T1'', User = ''alice'', ValidFrom = 0, ValidUntil = 3600\<rparr>"
  let ?T2 = "\<lparr>Duration = 3600, Token = ''T2'', User = ''alice'', ValidFrom = 10, ValidUntil = 3610\<rparr>"
  let ?run = "TokenGenerate_calls ?da ''alice'' ?calls"
  have agree: "maps_agree ?da" by (simp add: maps_agree_def empty_store_def)
  have user: "UserExists ?da ''alice'' = Inr True" by (simp add: UserExists_def)
  have fresh: "fresh ?da ?calls" by (simp add: fresh_def generated_def empty_store_def)
  have results: "fst ?run = [Inr ?T1, Inr ?T2]"
    by (simp add: TokenGenerate_unfold UserExists_def TokenGenerate_def TokenRetrieveByUser_def
          TokenInvalidate_def TokenRetrieveByToken_def empty_store_def Let_def split: prod.splits)
  have run: "?run = ([Inr ?T1, Inr ?T2], fst (snd ?run), snd (snd ?run))"
    using results by (metis prod.collapse)
  have ne: "[Inr ?T1, Inr ?T2] \<noteq> ([] :: (Error + Token) list)" by simp
  have last: "last [Inr ?T1, Inr ?T2] = (Inr ?T2 :: Error + Token)" by simp
  from TokenGenerate_supersedes [OF agree user fresh run ne last, of 20] show ?thesis by simp
qed

end
